theory Spec2Isabelle
  imports Main
begin

section \<open>Union/find engine and depth-first labeler of \<open>__graphTheoAlgs__.py\<close>\<close>

text \<open>
  The module holds two classes. \<open>quick_union_algs\<close> keeps a parents array
  \<open>self.id_updated\<close> (a numpy integer array) and offers root lookup, with and without
  path compression, a batched union and a scalar weighted union.
  \<open>depth_first_search_alg\<close> labels the connected components of an adjacency list by a
  recursive depth-first visit.

  Arrays of integers are lists of \<open>int\<close>. A Python exception is a value of type
  \<open>error\<close>; a loop that may run forever returns \<open>None\<close>. A method that mutates
  \<open>self.id_updated\<close> returns the new array next to its result, also when it raises:
  the writes made before the exception stay.
\<close>

datatype error =
    IndexError        \<comment> \<open>numpy: index out of bounds\<close>
  | ValueError        \<comment> \<open>numpy: shape mismatch in an indexed assignment\<close>
  | InvalidArgument   \<comment> \<open>\<open>Exception('Received ids must be of type int')\<close>\<close>
  | TypeError         \<comment> \<open>unexpected keyword argument; \<open>int()\<close> of an array whose size is not 1\<close>
  | AttributeError    \<comment> \<open>an attribute that was never set\<close>
  | RecursionError    \<comment> \<open>the interpreter's recursion limit\<close>

subsection \<open>numpy indexing\<close>

text \<open>
  An integer index \<open>v\<close> into an array of length \<open>n\<close> is accepted when
  \<open>-n \<le> v < n\<close>; a negative one counts from the end. Any other index raises
  IndexError.
\<close>

definition valid_index :: "nat \<Rightarrow> int \<Rightarrow> bool" where
  "valid_index n v = (- int n \<le> v \<and> v < int n)"

definition pos :: "nat \<Rightarrow> int \<Rightarrow> nat" where
  "pos n v = nat (if v < 0 then v + int n else v)"

definition at :: "int list \<Rightarrow> int \<Rightarrow> int" where
  "at xs v = xs ! pos (length xs) v"

text \<open>\<open>a[idx]\<close> for a sequence of indices: a new array, or IndexError.\<close>

definition take_np :: "int list \<Rightarrow> int list \<Rightarrow> error + int list" where
  "take_np xs idx =
     (if list_all (valid_index (length xs)) idx then Inr (map (at xs) idx)
      else Inl IndexError)"

text \<open>
  \<open>a[idx] = vals\<close>. The values are broadcast to the shape of the index first (equal
  lengths, or a single value for every index), then the indices are checked, then the
  values are written in order, so that the last value written to a repeated index stays.
\<close>

definition broadcast :: "nat \<Rightarrow> int list \<Rightarrow> int list option" where
  "broadcast n vals =
     (if length vals = n then Some vals
      else if length vals = 1 then Some (replicate n (hd vals))
      else None)"

definition put_np :: "int list \<Rightarrow> int list \<Rightarrow> int list \<Rightarrow> error + int list" where
  "put_np xs idx vals =
     (case broadcast (length idx) vals of
        None \<Rightarrow> Inl ValueError
      | Some ws \<Rightarrow>
          if list_all (valid_index (length xs)) idx
          then Inr (fold (\<lambda>(i, w) a. a[pos (length xs) i := w]) (zip idx ws) xs)
          else Inl IndexError)"

text \<open>\<open>sp.all(i == j)\<close> on two arrays of roots, with numpy's broadcasting.\<close>

definition all_eq :: "int list \<Rightarrow> int list \<Rightarrow> bool" where
  "all_eq i j =
     (if length i = length j then i = j
      else if length j = 1 then list_all (\<lambda>a. a = hd j) i
      else if length i = 1 then list_all (\<lambda>b. hd i = b) j
      else False)"

subsection \<open>Root lookup\<close>

text \<open>
  \<open>_root\<close>: \<open>while sp.any(v_i != self.id_updated[v_i]): v_i = self.id_updated[v_i]\<close>.
  The whole batch advances together; nothing is written.
\<close>

partial_function (option) root :: "int list \<Rightarrow> int list \<Rightarrow> (error + int list) option" where
  "root id_updated v_i =
     (case take_np id_updated v_i of
        Inl e \<Rightarrow> Some (Inl e)
      | Inr p \<Rightarrow> if v_i \<noteq> p then root id_updated p else Some (Inr v_i))"

declare root.simps [code]

text \<open>
  The loop of \<open>_root_path_compression\<close> for \<open>pc_type == 'path_halving'\<close>: every id
  of the batch is pointed to its grandparent, then moves there.
\<close>

partial_function (option) path_halving_loop ::
  "int list \<Rightarrow> int list \<Rightarrow> ((error + int list) \<times> int list) option" where
  "path_halving_loop id_updated v_j =
     (case take_np id_updated v_j of
        Inl e \<Rightarrow> Some (Inl e, id_updated)
      | Inr p \<Rightarrow>
          if v_j \<noteq> p then
            (case take_np id_updated p of
               Inl e \<Rightarrow> Some (Inl e, id_updated)
             | Inr gp \<Rightarrow>
                 (case put_np id_updated v_j gp of
                    Inl e \<Rightarrow> Some (Inl e, id_updated)
                  | Inr id' \<Rightarrow>
                      (case take_np id' v_j of
                         Inl e \<Rightarrow> Some (Inl e, id')
                       | Inr v_j' \<Rightarrow> path_halving_loop id' v_j')))
          else Some (Inr v_j, id_updated))"

declare path_halving_loop.simps [code]

text \<open>
  The second loop of \<open>pc_type == 'full_pc'\<close>: with the roots \<open>v_j\<close> known, walk from
  the ids again and point every visited vertex to the root of its batch position.
\<close>

partial_function (option) full_pc_loop ::
  "int list \<Rightarrow> int list \<Rightarrow> int list \<Rightarrow> ((error + unit) \<times> int list) option" where
  "full_pc_loop id_updated v_i v_j =
     (if v_i \<noteq> v_j then
        (case take_np id_updated v_i of
           Inl e \<Rightarrow> Some (Inl e, id_updated)
         | Inr v_j_new \<Rightarrow>
             (case put_np id_updated v_i v_j of
                Inl e \<Rightarrow> Some (Inl e, id_updated)
              | Inr id' \<Rightarrow> full_pc_loop id' v_j_new v_j))
      else Some (Inr (), id_updated))"

declare full_pc_loop.simps [code]

text \<open>
  \<open>_root_path_compression\<close>. The first loop of the \<open>'full_pc'\<close> branch is the loop of
  \<open>_root\<close>. A \<open>pc_type\<close> that is neither string runs no loop and returns the ids as
  they came.
\<close>

definition root_path_compression ::
  "int list \<Rightarrow> int list \<Rightarrow> string \<Rightarrow> ((error + int list) \<times> int list) option" where
  "root_path_compression id_updated v_i pc_type =
     (if pc_type = ''path_halving'' then path_halving_loop id_updated v_i
      else if pc_type = ''full_pc'' then
        (case root id_updated v_i of
           None \<Rightarrow> None
         | Some (Inl e) \<Rightarrow> Some (Inl e, id_updated)
         | Some (Inr v_j) \<Rightarrow>
             (case full_pc_loop id_updated v_i v_j of
                None \<Rightarrow> None
              | Some (Inl e, id') \<Rightarrow> Some (Inl e, id')
              | Some (Inr u, id') \<Rightarrow> Some (Inr v_j, id')))
      else Some (Inr v_i, id_updated))"

text \<open>
  The choice both \<open>find_root\<close> and the unions make: the compressing lookup when
  \<open>path_compression\<close> is set, \<open>_root\<close> otherwise.
\<close>

definition lookup ::
  "int list \<Rightarrow> int list \<Rightarrow> bool \<Rightarrow> string \<Rightarrow> ((error + int list) \<times> int list) option" where
  "lookup id_updated v path_compression pc_type =
     (if path_compression then root_path_compression id_updated v pc_type
      else map_option (\<lambda>r. (r, id_updated)) (root id_updated v))"

text \<open>
  The public \<open>find_root\<close> returns nothing: it writes the roots it found into the
  entries of the tested ids, \<open>self.id_updated[elements_to_test] = ...\<close>, in both
  branches.
\<close>

definition find_root ::
  "int list \<Rightarrow> int list \<Rightarrow> bool \<Rightarrow> string \<Rightarrow> ((error + unit) \<times> int list) option" where
  "find_root id_updated elements_to_test path_compression path_compression_type =
     (case lookup id_updated elements_to_test path_compression path_compression_type of
        None \<Rightarrow> None
      | Some (Inl e, id') \<Rightarrow> Some (Inl e, id')
      | Some (Inr r, id') \<Rightarrow>
          (case put_np id' elements_to_test r of
             Inl e \<Rightarrow> Some (Inl e, id')
           | Inr id'' \<Rightarrow> Some (Inr (), id'')))"

subsection \<open>Quick union\<close>

text \<open>
  \<open>build_quick_union\<close>: the roots of both batches, then \<open>return\<close> when they all
  agree, else the one assignment \<open>self.id_updated[i] = j\<close> for the whole batch.
\<close>

definition build_quick_union ::
  "int list \<Rightarrow> int list \<Rightarrow> int list \<Rightarrow> bool \<Rightarrow> string \<Rightarrow> ((error + unit) \<times> int list) option" where
  "build_quick_union id_updated minor main path_compression path_compression_type =
     (case lookup id_updated minor path_compression path_compression_type of
        None \<Rightarrow> None
      | Some (Inl e, id1) \<Rightarrow> Some (Inl e, id1)
      | Some (Inr i, id1) \<Rightarrow>
          (case lookup id1 main path_compression path_compression_type of
             None \<Rightarrow> None
           | Some (Inl e, id2) \<Rightarrow> Some (Inl e, id2)
           | Some (Inr j, id2) \<Rightarrow>
               if all_eq i j then Some (Inr (), id2)
               else (case put_np id2 i j of
                       Inl e \<Rightarrow> Some (Inl e, id2)
                     | Inr id3 \<Rightarrow> Some (Inr (), id3))))"

subsection \<open>Weighted quick union\<close>

text \<open>
  The arguments of \<open>build_weighted_quick_union\<close> as Python values: the method tests
  \<open>type(minor) != int\<close>, so what matters is which type a value has. A float is a
  mantissa and a binary exponent.
\<close>

datatype pyval =
    PyInt int             \<comment> \<open>a Python \<open>int\<close>\<close>
  | NpInt int             \<comment> \<open>a numpy integer scalar, such as an entry of \<open>id_updated\<close>\<close>
  | PyFloat int int
  | PyList "int list"
  | NpArray "int list"

text \<open>
  The engine: the parents array, and the two attributes that only
  \<open>build_weighted_quick_union\<close> reads and sets. \<open>size\<close> is a 2 x R array, kept as its
  R columns (root, count). The constructor sets \<open>id_updated\<close> alone.
\<close>

record engine =
  id_updated :: "int list"
  roots :: "int list option"
  size :: "(int \<times> int) list option"

definition quick_union_algs :: "int list \<Rightarrow> engine" where
  "quick_union_algs parents_array =
     \<lparr>id_updated = parents_array, roots = None, size = None\<rparr>"

text \<open>\<open>sp.array(sp.unique(a, return_counts=True))\<close>: the sorted distinct values with their counts.\<close>

definition unique_counts :: "int list \<Rightarrow> (int \<times> int) list" where
  "unique_counts a = map (\<lambda>v. (v, int (count_list a v))) (sort (remdups a))"

text \<open>
  \<open>int(sp.where(self.size[0] == r)[0])\<close>: the one column whose root is \<open>r\<close>;
  \<open>int()\<close> raises TypeError unless there is exactly one.
\<close>

definition index_of :: "(int \<times> int) list \<Rightarrow> int \<Rightarrow> error + nat" where
  "index_of tbl r =
     (case filter (\<lambda>k. fst (tbl ! k) = r) [0..<length tbl] of
        [k] \<Rightarrow> Inr k
      | _ \<Rightarrow> Inl TypeError)"

text \<open>
  \<open>self.size[1, keep] += self.size[1, gone]; self.size = sp.delete(self.size, gone, axis=1)\<close>.
\<close>

definition merge_size :: "(int \<times> int) list \<Rightarrow> nat \<Rightarrow> nat \<Rightarrow> (int \<times> int) list" where
  "merge_size tbl keep gone =
     (let tbl' = tbl[keep := (fst (tbl ! keep), snd (tbl ! keep) + snd (tbl ! gone))]
      in take gone tbl' @ drop (Suc gone) tbl')"

text \<open>
  One branch of the final \<open>if\<close>: root \<open>a\<close> goes under root \<open>b\<close>. The parents array is
  written first; \<open>self.roots[self.roots == a] = b\<close> raises AttributeError when
  \<open>self.roots\<close> was never set.
\<close>

definition attach :: "engine \<Rightarrow> (int \<times> int) list \<Rightarrow> int \<Rightarrow> nat \<Rightarrow> int \<Rightarrow> nat \<Rightarrow> (error + unit) \<times> engine" where
  "attach s tbl a a_index b b_index =
     (case put_np (id_updated s) [a] [b] of
        Inl e \<Rightarrow> (Inl e, s)
      | Inr id' \<Rightarrow>
          (case roots s of
             None \<Rightarrow> (Inl AttributeError, s\<lparr>id_updated := id'\<rparr>)
           | Some rs \<Rightarrow>
               (Inr (), s\<lparr>id_updated := id',
                          roots := Some (map (\<lambda>r. if r = a then b else r) rs),
                          size := Some (merge_size tbl b_index a_index)\<rparr>)))"

text \<open>
  The \<open>try\<close>/\<open>except\<close> that makes sure \<open>self.size\<close> exists. When \<open>self.size\<close> is
  missing and \<open>self.roots\<close> is missing too, or has another length than the parents
  array, the handler calls
  \<open>self.find_root(elements_to_test=..., path_compression=..., pc_type=...)\<close>.
  \<open>find_root\<close> has no parameter \<open>pc_type\<close> (its third parameter is
  \<open>path_compression_type\<close>), so the call raises TypeError before \<open>find_root\<close> runs,
  and nothing catches it: the statement sits in an \<open>except\<close> block.
\<close>

definition ensure_size :: "engine \<Rightarrow> error + engine \<times> (int \<times> int) list" where
  "ensure_size s =
     (case size s of
        Some tbl \<Rightarrow> Inr (s, tbl)
      | None \<Rightarrow>
          (case roots s of
             None \<Rightarrow> Inl TypeError
           | Some rs \<Rightarrow>
               if length rs \<noteq> length (id_updated s) then Inl TypeError
               else Inr (s\<lparr>size := Some (unique_counts rs)\<rparr>, unique_counts rs)))"

text \<open>
  \<open>build_weighted_quick_union\<close>. After the type check both ids are Python ints; the
  lookups run on them as on batches of one id.
\<close>

definition weighted_union_ints ::
  "engine \<Rightarrow> int \<Rightarrow> int \<Rightarrow> bool \<Rightarrow> string \<Rightarrow> ((error + unit) \<times> engine) option" where
  "weighted_union_ints s minor main path_compression path_compression_type =
     (case lookup (id_updated s) [minor] path_compression path_compression_type of
        None \<Rightarrow> None
      | Some (Inl e, id1) \<Rightarrow> Some (Inl e, s\<lparr>id_updated := id1\<rparr>)
      | Some (Inr ri, id1) \<Rightarrow>
          (case lookup id1 [main] path_compression path_compression_type of
             None \<Rightarrow> None
           | Some (Inl e, id2) \<Rightarrow> Some (Inl e, s\<lparr>id_updated := id2\<rparr>)
           | Some (Inr rj, id2) \<Rightarrow>
               (let i = hd ri; j = hd rj; s2 = s\<lparr>id_updated := id2\<rparr> in
                if i = j then Some (Inr (), s2)
                else
                  (case ensure_size s2 of
                     Inl e \<Rightarrow> Some (Inl e, s2)
                   | Inr (s3, tbl) \<Rightarrow>
                       (case index_of tbl i of
                          Inl e \<Rightarrow> Some (Inl e, s3)
                        | Inr i_index \<Rightarrow>
                            (case index_of tbl j of
                               Inl e \<Rightarrow> Some (Inl e, s3)
                             | Inr j_index \<Rightarrow>
                                 if snd (tbl ! i_index) \<le> snd (tbl ! j_index)
                                 then Some (attach s3 tbl i i_index j j_index)
                                 else Some (attach s3 tbl j j_index i i_index)))))))"

definition build_weighted_quick_union ::
  "engine \<Rightarrow> pyval \<Rightarrow> pyval \<Rightarrow> bool \<Rightarrow> string \<Rightarrow> ((error + unit) \<times> engine) option" where
  "build_weighted_quick_union s minor main path_compression path_compression_type =
     (case (minor, main) of
        (PyInt a, PyInt b) \<Rightarrow> weighted_union_ints s a b path_compression path_compression_type
      | _ \<Rightarrow> Some (Inl InvalidArgument, s))"

section \<open>Forests\<close>

text \<open>
  A vertex of an array of length \<open>n\<close> is an id in \<open>[0, n)\<close>. \<open>follow k\<close> takes
  \<open>k\<close> parent links; \<open>rootof\<close> takes as many links as the array has entries. The
  array is a valid forest when every entry is a vertex and every vertex reaches a
  self-parented vertex that way. \<open>dist\<close> counts the links to the root; \<open>ranked\<close> and
  \<open>compressed\<close> are the invariants of the proofs: every parent link leads to a vertex
  of smaller rank, and an array \<open>xs\<close> is a compression of \<open>xs0\<close> when each of its
  links leads to a proper ancestor in \<open>xs0\<close> and it has the roots of \<open>xs0\<close>.
  \<open>pc_mode\<close> holds of the two compression types the method knows.
\<close>

definition vertex :: "nat \<Rightarrow> int \<Rightarrow> bool" where
  "vertex n v = (0 \<le> v \<and> v < int n)"

fun follow :: "nat \<Rightarrow> int list \<Rightarrow> int \<Rightarrow> int" where
  "follow 0 xs v = v"
| "follow (Suc n) xs v = follow n xs (at xs v)"

definition rootof :: "int list \<Rightarrow> int \<Rightarrow> int" where
  "rootof xs v = follow (length xs) xs v"

definition vertices :: "int list \<Rightarrow> int list" where
  "vertices xs = map int [0..<length xs]"

definition valid_forest :: "int list \<Rightarrow> bool" where
  "valid_forest xs =
     (list_all (vertex (length xs)) xs \<and>
      list_all (\<lambda>v. at xs (rootof xs v) = rootof xs v) (vertices xs))"

definition dist :: "int list \<Rightarrow> int \<Rightarrow> nat" where
  "dist xs v = (LEAST k. at xs (follow k xs v) = follow k xs v)"

definition ranked :: "int list \<Rightarrow> (int \<Rightarrow> nat) \<Rightarrow> bool" where
  "ranked xs d =
     (\<forall>v. vertex (length xs) v \<longrightarrow>
        vertex (length xs) (at xs v) \<and> (at xs v \<noteq> v \<longrightarrow> d (at xs v) < d v))"

definition compressed :: "int list \<Rightarrow> int list \<Rightarrow> bool" where
  "compressed xs0 xs =
     (length xs = length xs0 \<and>
      (\<forall>v. vertex (length xs0) v \<longrightarrow>
         vertex (length xs0) (at xs v) \<and>
         rootof xs0 (at xs v) = rootof xs0 v \<and>
         (at xs v \<noteq> v \<longrightarrow> dist xs0 (at xs v) < dist xs0 v) \<and>
         (at xs v = v \<longrightarrow> at xs0 v = v)))"

definition pc_mode :: "string \<Rightarrow> bool" where
  "pc_mode t = (t = ''path_halving'' \<or> t = ''full_pc'')"

text \<open>
  \<open>is_py_int\<close> is the test \<open>type(x) == int\<close> of \<open>build_weighted_quick_union\<close>.
  \<open>scalar_integral\<close> is what the specification asks for instead: a single integer id,
  whichever type holds it.
\<close>

definition is_py_int :: "pyval \<Rightarrow> bool" where
  "is_py_int a = (case a of PyInt n \<Rightarrow> True | _ \<Rightarrow> False)"

definition scalar_integral :: "pyval \<Rightarrow> bool" where
  "scalar_integral a = (case a of PyInt n \<Rightarrow> True | NpInt n \<Rightarrow> True | _ \<Rightarrow> False)"

text \<open>
  Two conditions on the roots \<open>i\<close> of the minor ids and \<open>j\<close> of the main ids of a
  batch. \<open>keeps_main_roots\<close>: no root that a main id has is put under another root by
  the same assignment. \<open>consistent_pairs\<close>: minor ids with the same root come with main
  ids of the same root. \<open>reparented xs i j ys\<close> says what the assignment
  \<open>xs[i] = j\<close> leaves: entries outside \<open>i\<close> as they were, and for each index of
  \<open>i\<close> one of the values written to it.
\<close>

definition keeps_main_roots :: "int list \<Rightarrow> int list \<Rightarrow> bool" where
  "keeps_main_roots i j = (\<forall>k<length i. \<forall>l<length i. j ! k = i ! l \<longrightarrow> j ! l = i ! l)"

definition consistent_pairs :: "int list \<Rightarrow> int list \<Rightarrow> bool" where
  "consistent_pairs i j = (\<forall>k<length i. \<forall>l<length i. i ! k = i ! l \<longrightarrow> j ! k = j ! l)"

definition reparented :: "int list \<Rightarrow> int list \<Rightarrow> int list \<Rightarrow> int list \<Rightarrow> bool" where
  "reparented xs i j ys =
     (length ys = length xs \<and>
      (\<forall>u. vertex (length xs) u \<longrightarrow> u \<notin> set i \<longrightarrow> at ys u = at xs u) \<and>
      (\<forall>u \<in> set i. \<exists>k<length i. i ! k = u \<and> at ys u = j ! k))"

text \<open>
  \<open>norm\<close> is the vertex a valid numpy index stands for: itself, or, for a negative
  one, the entry counted from the end.
\<close>

definition norm :: "nat \<Rightarrow> int \<Rightarrow> int" where
  "norm n v = int (pos n v)"

section \<open>Parent links, roots and ranks\<close>

lemma vertex_valid_index: "vertex n v \<Longrightarrow> valid_index n v"
  by (simp add: vertex_def valid_index_def)

lemma vertex_pos: "vertex n v \<Longrightarrow> pos n v = nat v"
  by (simp add: vertex_def pos_def)

lemma vertex_at: "vertex (length xs) v \<Longrightarrow> at xs v = xs ! nat v"
  by (simp add: at_def vertex_pos)

lemma vertex_nat: "vertex n v \<Longrightarrow> nat v < n"
  by (auto simp: vertex_def)

lemma vertex_set_vertices: "v \<in> set (vertices xs) \<longleftrightarrow> vertex (length xs) v"
proof
  assume "v \<in> set (vertices xs)"
  then show "vertex (length xs) v" by (auto simp: vertices_def vertex_def)
next
  assume v: "vertex (length xs) v"
  then have "nat v < length xs" "int (nat v) = v" by (auto simp: vertex_def)
  then have "v \<in> int ` {0..<length xs}" by (metis atLeastLessThan_iff image_eqI le0)
  then show "v \<in> set (vertices xs)" by (simp add: vertices_def)
qed

lemma follow_at: "follow n xs (at xs v) = at xs (follow n xs v)"
  by (induction n arbitrary: v) simp_all

lemma follow_add: "follow (n + m) xs v = follow m xs (follow n xs v)"
  by (induction n arbitrary: v) simp_all

lemma follow_fixed: "at xs u = u \<Longrightarrow> follow n xs u = u"
  by (induction n) simp_all

lemma follow_fixed_le:
  assumes "at xs (follow k xs v) = follow k xs v" "k \<le> n"
  shows "follow n xs v = follow k xs v"
proof -
  from assms(2) obtain m where "n = k + m" using le_Suc_ex by blast
  then show ?thesis using assms(1) by (simp add: follow_add follow_fixed)
qed

lemma valid_forest_closed:
  assumes "valid_forest xs" "vertex (length xs) v"
  shows "vertex (length xs) (at xs v)"
proof -
  from assms(2) have "nat v < length xs" by (rule vertex_nat)
  then have "xs ! nat v \<in> set xs" by simp
  with assms(1) have "vertex (length xs) (xs ! nat v)"
    by (simp add: valid_forest_def list_all_iff)
  with assms(2) show ?thesis by (simp add: vertex_at)
qed

lemma valid_forest_follow:
  assumes "valid_forest xs" "vertex (length xs) v"
  shows "vertex (length xs) (follow n xs v)"
  using assms(2) by (induction n arbitrary: v) (simp_all add: valid_forest_closed[OF assms(1)])

lemma valid_forest_root:
  assumes "valid_forest xs" "vertex (length xs) v"
  shows "at xs (rootof xs v) = rootof xs v"
  using assms by (simp add: valid_forest_def list_all_iff vertex_set_vertices)

lemma rootof_vertex:
  "valid_forest xs \<Longrightarrow> vertex (length xs) v \<Longrightarrow> vertex (length xs) (rootof xs v)"
  by (simp add: rootof_def valid_forest_follow)

lemma rootof_at:
  assumes "valid_forest xs" "vertex (length xs) v"
  shows "rootof xs (at xs v) = rootof xs v"
  using valid_forest_root[OF assms] by (simp add: rootof_def follow_at)

lemma rootof_fixed: "at xs u = u \<Longrightarrow> rootof xs u = u"
  by (simp add: rootof_def follow_fixed)

lemma rootof_rootof:
  "valid_forest xs \<Longrightarrow> vertex (length xs) v \<Longrightarrow> rootof xs (rootof xs v) = rootof xs v"
  by (simp add: rootof_fixed valid_forest_root)

lemma dist_root: "at xs v = v \<Longrightarrow> dist xs v = 0"
  by (simp add: dist_def)

lemma dist_step:
  assumes "valid_forest xs" "vertex (length xs) v" "at xs v \<noteq> v"
  shows "dist xs v = Suc (dist xs (at xs v))"
proof -
  have "at xs (follow (length xs) xs v) = follow (length xs) xs v"
    using valid_forest_root[OF assms(1,2)] by (simp add: rootof_def)
  moreover have "\<not> at xs (follow 0 xs v) = follow 0 xs v" using assms(3) by simp
  ultimately show ?thesis
    unfolding dist_def by (simp add: Least_Suc[where P = "\<lambda>k. at xs (follow k xs v) = follow k xs v"])
qed

lemma dist_zero_root:
  assumes "valid_forest xs" "vertex (length xs) v" "dist xs v = 0"
  shows "at xs v = v"
  using dist_step[OF assms(1,2)] assms(3) by auto

lemma ranked_follow:
  assumes "ranked xs d" "vertex (length xs) v"
  shows "vertex (length xs) (follow n xs v)"
  using assms(2)
proof (induction n arbitrary: v)
  case 0
  then show ?case by simp
next
  case (Suc n)
  from assms(1) Suc.prems have "vertex (length xs) (at xs v)" by (simp add: ranked_def)
  then show ?case using Suc.IH by simp
qed

lemma ranked_reaches_root:
  assumes rk: "ranked xs d" and v: "vertex (length xs) v"
  shows "at xs (follow (length xs) xs v) = follow (length xs) xs v"
proof (rule ccontr)
  let ?N = "length xs"
  let ?f = "\<lambda>k. follow k xs v"
  assume no: "at xs (?f ?N) \<noteq> ?f ?N"
  have nonroot: "at xs (?f k) \<noteq> ?f k" if "k \<le> ?N" for k
    using follow_fixed_le[of xs k v ?N] that no by auto
  have vx: "vertex ?N (?f k)" for k by (rule ranked_follow[OF rk v])
  have step: "d (?f (Suc k)) < d (?f k)" if "k \<le> ?N" for k
  proof -
    have "?f (Suc k) = at xs (?f k)" by (simp add: follow_at)
    with rk vx[of k] nonroot[OF that] show ?thesis by (simp add: ranked_def)
  qed
  have strict: "k < l \<Longrightarrow> l \<le> Suc ?N \<Longrightarrow> d (?f l) < d (?f k)" for k l
  proof (induction l)
    case 0
    then show ?case by simp
  next
    case (Suc l)
    show ?case
    proof (cases "k = l")
      case True
      with Suc.prems step[of l] show ?thesis by simp
    next
      case False
      with Suc.prems have "k < l" "l \<le> Suc ?N" by simp_all
      then have "d (?f l) < d (?f k)" by (rule Suc.IH)
      moreover have "d (?f (Suc l)) < d (?f l)" using Suc.prems step[of l] by simp
      ultimately show ?thesis by simp
    qed
  qed
  have inj: "inj_on ?f {..?N}"
  proof (rule inj_onI)
    fix a b assume ab: "a \<in> {..?N}" "b \<in> {..?N}" "?f a = ?f b"
    show "a = b"
    proof (rule ccontr)
      assume "a \<noteq> b"
      then consider "a < b" | "b < a" by linarith
      then show False
      proof cases
        case 1
        with ab strict[of a b] show False by simp
      next
        case 2
        with ab strict[of b a] show False by simp
      qed
    qed
  qed
  have sub: "?f ` {..?N} \<subseteq> {0..<int ?N}"
    using vx by (auto simp: vertex_def)
  have "card (?f ` {..?N}) \<le> card {0..<int ?N}"
    by (rule card_mono[OF _ sub]) simp
  moreover have "card (?f ` {..?N}) = Suc ?N"
    using inj by (simp add: card_image)
  ultimately show False by simp
qed

lemma ranked_valid_forest:
  assumes rk: "ranked xs d"
  shows "valid_forest xs"
proof -
  have "vertex (length xs) x" if "x \<in> set xs" for x
  proof -
    from that obtain k where k: "k < length xs" "x = xs ! k" by (auto simp: in_set_conv_nth)
    then have vk: "vertex (length xs) (int k)" by (simp add: vertex_def)
    then have "at xs (int k) = x" using k by (simp add: vertex_at)
    with rk vk show ?thesis by (auto simp: ranked_def)
  qed
  moreover have "at xs (rootof xs v) = rootof xs v" if "v \<in> set (vertices xs)" for v
    using that ranked_reaches_root[OF rk] by (simp add: vertex_set_vertices rootof_def)
  ultimately show ?thesis by (simp add: valid_forest_def list_all_iff)
qed

lemma rootof_unique:
  assumes vf: "valid_forest xs"
    and pres: "\<And>v. vertex (length xs) v \<Longrightarrow> r (at xs v) = r v"
    and fx: "\<And>v. vertex (length xs) v \<Longrightarrow> at xs v = v \<Longrightarrow> r v = v"
    and v: "vertex (length xs) v"
  shows "rootof xs v = r v"
proof -
  have "r (follow n xs v) = r v" for n
  proof (induction n)
    case 0
    then show ?case by simp
  next
    case (Suc n)
    have "follow (Suc n) xs v = at xs (follow n xs v)" by (simp add: follow_at)
    then show ?case using pres[OF valid_forest_follow[OF vf v, of n]] Suc by simp
  qed
  then have "r (rootof xs v) = r v" by (simp add: rootof_def)
  moreover have "r (rootof xs v) = rootof xs v"
    by (rule fx[OF rootof_vertex[OF vf v] valid_forest_root[OF vf v]])
  ultimately show ?thesis by simp
qed

lemma compressed_refl: "valid_forest xs \<Longrightarrow> compressed xs xs"
  by (auto simp: compressed_def valid_forest_closed rootof_at dist_step)

lemma compressed_length: "compressed xs0 xs \<Longrightarrow> length xs = length xs0"
  by (simp add: compressed_def)

lemma compressed_ranked: "compressed xs0 xs \<Longrightarrow> ranked xs (dist xs0)"
  by (simp add: compressed_def ranked_def)

lemma compressed_valid: "compressed xs0 xs \<Longrightarrow> valid_forest xs"
  by (rule ranked_valid_forest[OF compressed_ranked])

lemma compressed_rootof:
  assumes "compressed xs0 xs" "vertex (length xs0) v"
  shows "rootof xs v = rootof xs0 v"
proof (rule rootof_unique[OF compressed_valid[OF assms(1)]])
  show "vertex (length xs) v" using assms by (simp add: compressed_def)
next
  fix u assume "vertex (length xs) u"
  then show "rootof xs0 (at xs u) = rootof xs0 u" using assms(1) by (simp add: compressed_def)
next
  fix u assume "vertex (length xs) u" "at xs u = u"
  then show "rootof xs0 u = u" using assms(1) by (simp add: compressed_def rootof_fixed)
qed

lemma compressed_root_iff:
  assumes vf: "valid_forest xs0" and c: "compressed xs0 xs" and v: "vertex (length xs0) v"
  shows "at xs v = v \<longleftrightarrow> rootof xs0 v = v"
proof
  assume "at xs v = v"
  with c v show "rootof xs0 v = v" by (simp add: compressed_def rootof_fixed)
next
  assume r: "rootof xs0 v = v"
  then have "at xs0 v = v" using valid_forest_root[OF vf v] by simp
  then have "dist xs0 v = 0" by (rule dist_root)
  with c v show "at xs v = v" by (auto simp: compressed_def)
qed

lemma fold_put:
  assumes "\<forall>(i, w) \<in> set ps. vertex n i \<and> w = f i" and "length xs = n"
  shows "length (fold (\<lambda>(i, w) a. a[pos n i := w]) ps xs) = n \<and>
         (\<forall>u. vertex n u \<longrightarrow>
            fold (\<lambda>(i, w) a. a[pos n i := w]) ps xs ! nat u =
              (if u \<in> fst ` set ps then f u else xs ! nat u))"
  using assms
proof (induction ps arbitrary: xs)
  case Nil
  then show ?case by simp
next
  case (Cons p ps)
  obtain i w where p: "p = (i, w)" by (cases p)
  with Cons.prems have i: "vertex n i" "w = f i" by simp_all
  let ?xs1 = "xs[nat i := f i]"
  have IH: "length (fold (\<lambda>(i, w) a. a[pos n i := w]) ps ?xs1) = n \<and>
         (\<forall>u. vertex n u \<longrightarrow>
            fold (\<lambda>(i, w) a. a[pos n i := w]) ps ?xs1 ! nat u =
              (if u \<in> fst ` set ps then f u else ?xs1 ! nat u))"
    using Cons.prems by (intro Cons.IH) simp_all
  have upd: "?xs1 ! nat u = (if u = i then f i else xs ! nat u)" if "vertex n u" for u
    using that i(1) Cons.prems(2) by (auto simp: vertex_def nth_list_update)
  have unfold: "fold (\<lambda>(i, w) a. a[pos n i := w]) (p # ps) xs =
        fold (\<lambda>(i, w) a. a[pos n i := w]) ps ?xs1"
    using p i by (simp add: vertex_pos)
  show ?case unfolding unfold using IH upd p by auto
qed

lemma put_np_vertex:
  assumes idx: "\<forall>v \<in> set idx. vertex (length xs) v"
  shows "\<exists>ys. put_np xs idx (map f idx) = Inr ys \<and> length ys = length xs \<and>
           (\<forall>u. vertex (length xs) u \<longrightarrow> at ys u = (if u \<in> set idx then f u else at xs u))"
proof -
  let ?ps = "zip idx (map f idx)"
  let ?ys = "fold (\<lambda>(i, w) a. a[pos (length xs) i := w]) ?ps xs"
  have ps: "?ps = map (\<lambda>x. (x, f x)) idx"
    by (simp add: zip_map2 zip_same_conv_map)
  have "\<forall>(i, w) \<in> set ?ps. vertex (length xs) i \<and> w = f i"
    using idx unfolding ps by auto
  then have fp: "length ?ys = length xs \<and>
         (\<forall>u. vertex (length xs) u \<longrightarrow>
            ?ys ! nat u = (if u \<in> fst ` set ?ps then f u else xs ! nat u))"
    by (rule fold_put) simp
  have fst: "fst ` set ?ps = set idx" unfolding ps by force
  have "list_all (valid_index (length xs)) idx"
    using idx by (simp add: list_all_iff vertex_valid_index)
  then have "put_np xs idx (map f idx) = Inr ?ys"
    by (simp add: put_np_def broadcast_def)
  moreover have "\<forall>u. vertex (length xs) u \<longrightarrow> at ?ys u = (if u \<in> set idx then f u else at xs u)"
    using fp fst by (simp add: at_def vertex_pos)
  ultimately show ?thesis using fp by blast
qed

lemma take_np_vertex:
  assumes "\<forall>v \<in> set idx. vertex (length xs) v"
  shows "take_np xs idx = Inr (map (at xs) idx)"
  using assms by (simp add: take_np_def list_all_iff vertex_valid_index)

lemma at_eqI:
  assumes "length ys = length xs" "\<And>u. vertex (length xs) u \<Longrightarrow> at ys u = at xs u"
  shows "ys = xs"
proof (rule nth_equalityI)
  show "length ys = length xs" by fact
next
  fix k assume "k < length ys"
  then have v: "vertex (length xs) (int k)" using assms(1) by (simp add: vertex_def)
  from assms(2)[OF v] v assms(1) show "ys ! k = xs ! k" by (simp add: at_def vertex_pos)
qed

lemma sum_list_decrease:
  fixes g :: "int \<Rightarrow> nat"
  assumes "\<forall>v \<in> set vs. g (h v) \<le> g v" "\<exists>v \<in> set vs. g (h v) < g v"
  shows "sum_list (map g (map h vs)) < sum_list (map g vs)"
  using assms
proof (induction vs)
  case Nil
  then show ?case by simp
next
  case (Cons a vs)
  have le: "sum_list (map g (map h vs)) \<le> sum_list (map g vs)"
    using Cons.prems(1) by (induction vs) (simp_all add: add_mono)
  show ?case
  proof (cases "g (h a) < g a")
    case True
    with le show ?thesis by simp
  next
    case False
    with Cons.prems have "\<exists>v \<in> set vs. g (h v) < g v" by auto
    with Cons.prems(1) have "sum_list (map g (map h vs)) < sum_list (map g vs)"
      by (intro Cons.IH) simp_all
    moreover have "g (h a) \<le> g a" using Cons.prems(1) by simp
    ultimately show ?thesis by simp
  qed
qed

text \<open>facts about one parent step under the invariant\<close>

lemma compressed_at_vertex:
  "compressed xs0 xs \<Longrightarrow> vertex (length xs0) v \<Longrightarrow> vertex (length xs0) (at xs v)"
  by (simp add: compressed_def)

lemma compressed_at_rootof:
  "compressed xs0 xs \<Longrightarrow> vertex (length xs0) v \<Longrightarrow> rootof xs0 (at xs v) = rootof xs0 v"
  by (simp add: compressed_def)

lemma compressed_at_dist_le:
  "compressed xs0 xs \<Longrightarrow> vertex (length xs0) v \<Longrightarrow> dist xs0 (at xs v) \<le> dist xs0 v"
  by (cases "at xs v = v") (auto simp: compressed_def less_imp_le)

lemma compressed_at_dist_less:
  "compressed xs0 xs \<Longrightarrow> vertex (length xs0) v \<Longrightarrow> at xs v \<noteq> v \<Longrightarrow> dist xs0 (at xs v) < dist xs0 v"
  by (simp add: compressed_def)

lemma root_vertex:
  assumes vf: "valid_forest xs0" and c: "compressed xs0 xs"
    and vs: "\<forall>v \<in> set vs. vertex (length xs0) v"
  shows "root xs vs = Some (Inr (map (rootof xs0) vs))"
  using vs
proof (induction "sum_list (map (dist xs0) vs)" arbitrary: vs rule: less_induct)
  case less
  note vs = less.prems
  have len: "length xs = length xs0" by (rule compressed_length[OF c])
  have tk: "take_np xs vs = Inr (map (at xs) vs)"
    using vs by (intro take_np_vertex) (simp add: len)
  show ?case
  proof (cases "vs = map (at xs) vs")
    case True
    have "rootof xs0 v = v" if "v \<in> set vs" for v
    proof -
      from True that have "at xs v = v" by (metis map_eq_conv map_ident)
      with c vs that show ?thesis by (simp add: compressed_root_iff[OF vf c])
    qed
    then have "map (rootof xs0) vs = vs" by (simp add: map_idI)
    with True tk show ?thesis by (subst root.simps) simp
  next
    case False
    let ?p = "map (at xs) vs"
    have pv: "\<forall>v \<in> set ?p. vertex (length xs0) v"
      using vs by (simp add: compressed_at_vertex[OF c])
    have "\<exists>v \<in> set vs. at xs v \<noteq> v" using False by (metis map_idI)
    then have "\<exists>v \<in> set vs. dist xs0 (at xs v) < dist xs0 v"
      using vs compressed_at_dist_less[OF c] by blast
    moreover have "\<forall>v \<in> set vs. dist xs0 (at xs v) \<le> dist xs0 v"
      using vs compressed_at_dist_le[OF c] by blast
    ultimately have "sum_list (map (dist xs0) ?p) < sum_list (map (dist xs0) vs)"
      by (intro sum_list_decrease)
    then have "root xs ?p = Some (Inr (map (rootof xs0) ?p))"
      using pv by (rule less.hyps)
    moreover have "map (rootof xs0) ?p = map (rootof xs0) vs"
      using vs by (simp add: compressed_at_rootof[OF c])
    ultimately show ?thesis using False tk by (subst root.simps) simp
  qed
qed

lemma rootof_dist_zero:
  assumes vf: "valid_forest xs0" and v: "vertex (length xs0) v"
  shows "dist xs0 (rootof xs0 v) = 0"
  by (rule dist_root[OF valid_forest_root[OF vf v]])

lemma nonroot_dist_pos:
  assumes vf: "valid_forest xs0" and v: "vertex (length xs0) v" and "rootof xs0 v \<noteq> v"
  shows "0 < dist xs0 v"
proof (rule ccontr)
  assume "\<not> 0 < dist xs0 v"
  then have "at xs0 v = v" using dist_zero_root[OF vf v] by simp
  then show False using assms(3) by (simp add: rootof_fixed)
qed

lemma compressed_put_roots:
  assumes vf: "valid_forest xs0" and c: "compressed xs0 xs"
    and vs: "\<forall>v \<in> set vs. vertex (length xs0) v"
  shows "\<exists>ys. put_np xs vs (map (rootof xs0) vs) = Inr ys \<and> compressed xs0 ys \<and>
           (\<forall>u. vertex (length xs0) u \<longrightarrow>
              at ys u = (if u \<in> set vs then rootof xs0 u else at xs u))"
proof -
  have len: "length xs = length xs0" by (rule compressed_length[OF c])
  from vs have "\<forall>v \<in> set vs. vertex (length xs) v" by (simp add: len)
  from put_np_vertex[OF this, of "rootof xs0"] obtain ys where
    ys: "put_np xs vs (map (rootof xs0) vs) = Inr ys" "length ys = length xs"
      "\<forall>u. vertex (length xs) u \<longrightarrow> at ys u = (if u \<in> set vs then rootof xs0 u else at xs u)"
    by blast
  have "compressed xs0 ys"
    unfolding compressed_def
  proof (intro conjI allI impI)
    show "length ys = length xs0" using ys(2) len by simp
  next
    fix v assume v: "vertex (length xs0) v"
    show "vertex (length xs0) (at ys v)"
      using ys(3) v len by (simp add: rootof_vertex[OF vf] compressed_at_vertex[OF c])
    show "rootof xs0 (at ys v) = rootof xs0 v"
      using ys(3) v len by (simp add: rootof_rootof[OF vf] compressed_at_rootof[OF c])
    show "dist xs0 (at ys v) < dist xs0 v" if "at ys v \<noteq> v"
    proof (cases "v \<in> set vs")
      case True
      then have "at ys v = rootof xs0 v" using ys(3) v len by simp
      with that show ?thesis
        using rootof_dist_zero[OF vf v] nonroot_dist_pos[OF vf v] by simp
    next
      case False
      then have "at ys v = at xs v" using ys(3) v len by simp
      with that show ?thesis using compressed_at_dist_less[OF c v] by simp
    qed
    show "at xs0 v = v" if "at ys v = v"
    proof (cases "v \<in> set vs")
      case True
      then have "at ys v = rootof xs0 v" using ys(3) v len by simp
      with that show ?thesis using valid_forest_root[OF vf v] by simp
    next
      case False
      then have "at ys v = at xs v" using ys(3) v len by simp
      with that c v show ?thesis by (simp add: compressed_def)
    qed
  qed
  with ys len show ?thesis by auto
qed

lemma compressed_put_grandparents:
  assumes vf: "valid_forest xs0" and c: "compressed xs0 xs"
    and vs: "\<forall>v \<in> set vs. vertex (length xs0) v"
  shows "\<exists>ys. put_np xs vs (map (at xs) (map (at xs) vs)) = Inr ys \<and> compressed xs0 ys \<and>
           (\<forall>u. vertex (length xs0) u \<longrightarrow>
              at ys u = (if u \<in> set vs then at xs (at xs u) else at xs u))"
proof -
  have len: "length xs = length xs0" by (rule compressed_length[OF c])
  from vs have "\<forall>v \<in> set vs. vertex (length xs) v" by (simp add: len)
  from put_np_vertex[OF this, of "\<lambda>v. at xs (at xs v)"] obtain ys where
    ys: "put_np xs vs (map (at xs) (map (at xs) vs)) = Inr ys" "length ys = length xs"
      "\<forall>u. vertex (length xs) u \<longrightarrow> at ys u = (if u \<in> set vs then at xs (at xs u) else at xs u)"
    by (auto simp: comp_def)
  have two: "dist xs0 (at xs (at xs v)) \<le> dist xs0 (at xs v)" if "vertex (length xs0) v" for v
    by (rule compressed_at_dist_le[OF c compressed_at_vertex[OF c that]])
  have "compressed xs0 ys"
    unfolding compressed_def
  proof (intro conjI allI impI)
    show "length ys = length xs0" using ys(2) len by simp
  next
    fix v assume v: "vertex (length xs0) v"
    note pv = compressed_at_vertex[OF c v]
    show "vertex (length xs0) (at ys v)"
      using ys(3) v len by (simp add: compressed_at_vertex[OF c])
    show "rootof xs0 (at ys v) = rootof xs0 v"
      using ys(3) v pv len by (simp add: compressed_at_rootof[OF c])
    show "dist xs0 (at ys v) < dist xs0 v" if "at ys v \<noteq> v"
    proof (cases "v \<in> set vs")
      case True
      then have eq: "at ys v = at xs (at xs v)" using ys(3) v len by simp
      with that have "at xs v \<noteq> v" by auto
      then have "dist xs0 (at xs v) < dist xs0 v" by (rule compressed_at_dist_less[OF c v])
      with two[OF v] eq show ?thesis by simp
    next
      case False
      then have "at ys v = at xs v" using ys(3) v len by simp
      with that show ?thesis using compressed_at_dist_less[OF c v] by simp
    qed
    show "at xs0 v = v" if "at ys v = v"
    proof (cases "v \<in> set vs")
      case True
      then have eq: "at xs (at xs v) = v" using ys(3) v len that by simp
      have "at xs v = v"
      proof (rule ccontr)
        assume "at xs v \<noteq> v"
        then have "dist xs0 (at xs v) < dist xs0 v" by (rule compressed_at_dist_less[OF c v])
        with two[OF v] eq show False by simp
      qed
      with c v show ?thesis by (simp add: compressed_def)
    next
      case False
      then have "at ys v = at xs v" using ys(3) v len by simp
      with that c v show ?thesis by (simp add: compressed_def)
    qed
  qed
  with ys len show ?thesis by auto
qed

lemma path_halving_vertex:
  assumes vf: "valid_forest xs0"
  shows "compressed xs0 xs \<Longrightarrow> \<forall>v \<in> set vs. vertex (length xs0) v \<Longrightarrow>
     \<exists>xs'. path_halving_loop xs vs = Some (Inr (map (rootof xs0) vs), xs') \<and> compressed xs0 xs'"
proof (induction "sum_list (map (dist xs0) vs)" arbitrary: xs vs rule: less_induct)
  case less
  note c = less.prems(1) and vs = less.prems(2)
  have len: "length xs = length xs0" by (rule compressed_length[OF c])
  let ?p = "map (at xs) vs"
  have tk: "take_np xs vs = Inr ?p"
    using vs by (intro take_np_vertex) (simp add: len)
  show ?case
  proof (cases "vs = ?p")
    case True
    have "rootof xs0 v = v" if "v \<in> set vs" for v
    proof -
      from True that have "at xs v = v" by (metis map_eq_conv map_ident)
      with c vs that show ?thesis by (simp add: compressed_root_iff[OF vf c])
    qed
    then have "map (rootof xs0) vs = vs" by (simp add: map_idI)
    with True tk c show ?thesis by (subst path_halving_loop.simps) simp
  next
    case False
    have pv: "\<forall>v \<in> set ?p. vertex (length xs0) v"
      using vs by (simp add: compressed_at_vertex[OF c])
    have tk2: "take_np xs ?p = Inr (map (at xs) ?p)"
      using pv by (intro take_np_vertex) (simp add: len)
    from compressed_put_grandparents[OF vf c vs] obtain ys where
      ys: "put_np xs vs (map (at xs) ?p) = Inr ys" "compressed xs0 ys"
        "\<forall>u. vertex (length xs0) u \<longrightarrow> at ys u = (if u \<in> set vs then at xs (at xs u) else at xs u)"
      by blast
    let ?q = "map (\<lambda>v. at xs (at xs v)) vs"
    have leny: "length ys = length xs0" by (rule compressed_length[OF ys(2)])
    have "map (at ys) vs = ?q" using ys(3) vs by simp
    then have tk3: "take_np ys vs = Inr ?q"
      using vs take_np_vertex[of vs ys] by (simp add: leny)
    have qv: "\<forall>v \<in> set ?q. vertex (length xs0) v"
      using vs by (simp add: compressed_at_vertex[OF c])
    have "\<exists>v \<in> set vs. at xs v \<noteq> v" using False by (metis map_idI)
    then have "\<exists>v \<in> set vs. dist xs0 (at xs (at xs v)) < dist xs0 v"
      using vs compressed_at_dist_less[OF c]
        compressed_at_dist_le[OF c compressed_at_vertex[OF c]]
      by (meson le_less_trans)
    moreover have "\<forall>v \<in> set vs. dist xs0 (at xs (at xs v)) \<le> dist xs0 v"
      using vs compressed_at_dist_le[OF c] compressed_at_vertex[OF c]
      by (meson le_trans)
    ultimately have "sum_list (map (dist xs0) (map (\<lambda>v. at xs (at xs v)) vs))
        < sum_list (map (dist xs0) vs)"
      by (intro sum_list_decrease)
    from less.hyps[OF this ys(2) qv] obtain xs' where
      xs': "path_halving_loop ys ?q = Some (Inr (map (rootof xs0) ?q), xs')" "compressed xs0 xs'"
      by blast
    have "map (rootof xs0) ?q = map (rootof xs0) vs"
      using vs by (simp add: compressed_at_rootof[OF c] compressed_at_vertex[OF c])
    with xs' False tk tk2 ys(1) tk3 show ?thesis
      by (subst path_halving_loop.simps) (simp add: comp_def)
  qed
qed

lemma full_pc_loop_vertex:
  assumes vf: "valid_forest xs0"
  shows "compressed xs0 xs \<Longrightarrow> \<forall>v \<in> set vi. vertex (length xs0) v \<Longrightarrow>
     \<exists>xs'. full_pc_loop xs vi (map (rootof xs0) vi) = Some (Inr (), xs') \<and> compressed xs0 xs' \<and>
        (\<forall>u. vertex (length xs0) u \<longrightarrow> at xs' u = at xs u \<or> at xs' u = rootof xs0 u) \<and>
        (\<forall>v \<in> set vi. at xs' v = rootof xs0 v)"
proof (induction "sum_list (map (dist xs0) vi)" arbitrary: xs vi rule: less_induct)
  case less
  note c = less.prems(1) and vi = less.prems(2)
  have len: "length xs = length xs0" by (rule compressed_length[OF c])
  let ?vj = "map (rootof xs0) vi"
  show ?case
  proof (cases "vi = ?vj")
    case True
    have "at xs v = rootof xs0 v" if "v \<in> set vi" for v
    proof -
      from True that have "rootof xs0 v = v" by (metis map_eq_conv map_ident)
      with vi that show ?thesis by (simp add: compressed_root_iff[OF vf c])
    qed
    with True c show ?thesis by (subst full_pc_loop.simps) simp
  next
    case False
    let ?p = "map (at xs) vi"
    have tk: "take_np xs vi = Inr ?p"
      using vi by (intro take_np_vertex) (simp add: len)
    have pv: "\<forall>v \<in> set ?p. vertex (length xs0) v"
      using vi by (simp add: compressed_at_vertex[OF c])
    from compressed_put_roots[OF vf c vi] obtain ys where
      ys: "put_np xs vi ?vj = Inr ys" "compressed xs0 ys"
        "\<forall>u. vertex (length xs0) u \<longrightarrow> at ys u = (if u \<in> set vi then rootof xs0 u else at xs u)"
      by blast
    have "\<exists>v \<in> set vi. rootof xs0 v \<noteq> v" using False by (metis map_idI)
    then have "\<exists>v \<in> set vi. at xs v \<noteq> v"
      using vi compressed_root_iff[OF vf c] by blast
    then have "\<exists>v \<in> set vi. dist xs0 (at xs v) < dist xs0 v"
      using vi compressed_at_dist_less[OF c] by blast
    moreover have "\<forall>v \<in> set vi. dist xs0 (at xs v) \<le> dist xs0 v"
      using vi compressed_at_dist_le[OF c] by blast
    ultimately have "sum_list (map (dist xs0) ?p) < sum_list (map (dist xs0) vi)"
      by (intro sum_list_decrease)
    from less.hyps[OF this ys(2) pv] obtain xs' where
      xs': "full_pc_loop ys ?p (map (rootof xs0) ?p) = Some (Inr (), xs')" "compressed xs0 xs'"
        "\<forall>u. vertex (length xs0) u \<longrightarrow> at xs' u = at ys u \<or> at xs' u = rootof xs0 u"
      by blast
    have same: "map (rootof xs0) ?p = ?vj"
      using vi by (simp add: compressed_at_rootof[OF c])
    have rec: "full_pc_loop ys ?p ?vj = Some (Inr (), xs')"
      using xs'(1) by (simp only: same)
    have run: "full_pc_loop xs vi ?vj = Some (Inr (), xs')"
      using False tk ys(1) rec by (subst full_pc_loop.simps) simp
    have frame: "\<forall>u. vertex (length xs0) u \<longrightarrow> at xs' u = at xs u \<or> at xs' u = rootof xs0 u"
      using xs'(3) ys(3) by metis
    have post: "\<forall>v \<in> set vi. at xs' v = rootof xs0 v"
      using xs'(3) ys(3) vi by metis
    from run xs'(2) frame post show ?thesis by blast
  qed
qed

lemma root_path_compression_vertex:
  assumes vf: "valid_forest xs0" and c: "compressed xs0 xs"
    and vs: "\<forall>v \<in> set vs. vertex (length xs0) v" and m: "pc_mode t"
  shows "\<exists>xs'. root_path_compression xs vs t = Some (Inr (map (rootof xs0) vs), xs') \<and>
           compressed xs0 xs'"
proof (cases "t = ''path_halving''")
  case True
  with path_halving_vertex[OF vf c vs] show ?thesis by (simp add: root_path_compression_def)
next
  case False
  with m have t: "t = ''full_pc''" by (simp add: pc_mode_def)
  from full_pc_loop_vertex[OF vf c vs] obtain xs' where
    "full_pc_loop xs vs (map (rootof xs0) vs) = Some (Inr (), xs')" "compressed xs0 xs'" by blast
  then show ?thesis using t root_vertex[OF vf c vs] by (simp add: root_path_compression_def)
qed

lemma full_pc_vertex:
  assumes vf: "valid_forest xs0" and c: "compressed xs0 xs"
    and vs: "\<forall>v \<in> set vs. vertex (length xs0) v"
  shows "\<exists>xs'. root_path_compression xs vs ''full_pc'' = Some (Inr (map (rootof xs0) vs), xs') \<and>
           compressed xs0 xs' \<and> (\<forall>v \<in> set vs. at xs' v = rootof xs0 v)"
proof -
  from full_pc_loop_vertex[OF vf c vs] obtain xs' where
    "full_pc_loop xs vs (map (rootof xs0) vs) = Some (Inr (), xs')" "compressed xs0 xs'"
    "\<forall>v \<in> set vs. at xs' v = rootof xs0 v" by blast
  then show ?thesis using root_vertex[OF vf c vs] by (simp add: root_path_compression_def)
qed

lemma lookup_vertex:
  assumes vf: "valid_forest xs0" and c: "compressed xs0 xs"
    and vs: "\<forall>v \<in> set vs. vertex (length xs0) v" and m: "pc_mode t"
  shows "\<exists>xs'. lookup xs vs pc t = Some (Inr (map (rootof xs0) vs), xs') \<and> compressed xs0 xs' \<and>
           (\<not> pc \<longrightarrow> xs' = xs)"
proof (cases pc)
  case True
  with root_path_compression_vertex[OF vf c vs m] show ?thesis by (simp add: lookup_def)
next
  case False
  with root_vertex[OF vf c vs] c show ?thesis by (simp add: lookup_def)
qed

lemma lookup_plain:
  assumes vf: "valid_forest xs0" and c: "compressed xs0 xs"
    and vs: "\<forall>v \<in> set vs. vertex (length xs0) v"
  shows "lookup xs vs False t = Some (Inr (map (rootof xs0) vs), xs)"
  using root_vertex[OF vf c vs] by (simp add: lookup_def)

lemma find_root_vertex:
  assumes vf: "valid_forest xs0" and c: "compressed xs0 xs"
    and vs: "\<forall>v \<in> set vs. vertex (length xs0) v" and m: "pc_mode t \<or> \<not> pc"
  shows "\<exists>xs' ys. lookup xs vs pc t = Some (Inr (map (rootof xs0) vs), xs') \<and>
           find_root xs vs pc t = Some (Inr (), ys) \<and> compressed xs0 ys \<and>
           (\<forall>u. vertex (length xs0) u \<longrightarrow>
              at ys u = (if u \<in> set vs then rootof xs0 u else at xs' u))"
proof -
  have "\<exists>xs'. lookup xs vs pc t = Some (Inr (map (rootof xs0) vs), xs') \<and> compressed xs0 xs'"
  proof (cases pc)
    case True
    with m lookup_vertex[OF vf c vs] show ?thesis by blast
  next
    case False
    with lookup_plain[OF vf c vs] c show ?thesis by simp
  qed
  then obtain xs' where
    xs': "lookup xs vs pc t = Some (Inr (map (rootof xs0) vs), xs')" "compressed xs0 xs'" by blast
  from compressed_put_roots[OF vf xs'(2) vs] obtain ys where
    ys: "put_np xs' vs (map (rootof xs0) vs) = Inr ys" "compressed xs0 ys"
      "\<forall>u. vertex (length xs0) u \<longrightarrow> at ys u = (if u \<in> set vs then rootof xs0 u else at xs' u)"
    by blast
  have "find_root xs vs pc t = Some (Inr (), ys)"
    using xs'(1) ys(1) by (simp add: find_root_def)
  with xs' ys show ?thesis by blast
qed

section \<open>Which errors the lookups and the weighted union raise\<close>

lemma take_np_error: "take_np xs idx = Inl e \<Longrightarrow> e = IndexError"
  by (auto simp: take_np_def split: if_splits)

lemma put_np_error: "put_np xs idx ws = Inl e \<Longrightarrow> e = IndexError \<or> e = ValueError"
  by (auto simp: put_np_def split: option.splits if_splits)

lemma root_error_gen:
  assumes ret: "root xs v = Some r"
  shows "\<forall>e. r = Inl e \<longrightarrow> e = IndexError"
proof (rule root.raw_induct[where P = "\<lambda>xs v r. \<forall>e. r = Inl e \<longrightarrow> e = IndexError", OF _ ret])
  fix f xs v r
  assume IH: "\<And>xs v r. f xs v = Some r \<Longrightarrow> \<forall>e. r = Inl e \<longrightarrow> e = IndexError"
    and eq: "(case take_np xs v of Inl e \<Rightarrow> Some (Inl e)
             | Inr p \<Rightarrow> if v \<noteq> p then f xs p else Some (Inr v)) = Some r"
  show "\<forall>e. r = Inl e \<longrightarrow> e = IndexError"
  proof (cases "take_np xs v")
    case (Inl e')
    with eq show ?thesis using take_np_error[OF Inl] by auto
  next
    case (Inr p)
    with eq IH show ?thesis by (auto split: if_splits)
  qed
qed

lemma root_error: "root xs v = Some (Inl e) \<Longrightarrow> e = IndexError"
  using root_error_gen by blast

lemma path_halving_error_gen:
  assumes ret: "path_halving_loop xs v = Some r"
  shows "\<forall>e ys. r = (Inl e, ys) \<longrightarrow> e = IndexError \<or> e = ValueError"
proof (rule path_halving_loop.raw_induct[where
      P = "\<lambda>xs v r. \<forall>e ys. r = (Inl e, ys) \<longrightarrow> e = IndexError \<or> e = ValueError", OF _ ret])
  fix f xs v r
  assume IH: "\<And>xs v r. f xs v = Some r \<Longrightarrow>
               \<forall>e ys. r = (Inl e, ys) \<longrightarrow> e = IndexError \<or> e = ValueError"
    and eq: "(case take_np xs v of
        Inl e \<Rightarrow> Some (Inl e, xs)
      | Inr p \<Rightarrow>
          if v \<noteq> p then
            (case take_np xs p of
               Inl e \<Rightarrow> Some (Inl e, xs)
             | Inr gp \<Rightarrow>
                 (case put_np xs v gp of
                    Inl e \<Rightarrow> Some (Inl e, xs)
                  | Inr id' \<Rightarrow>
                      (case take_np id' v of
                         Inl e \<Rightarrow> Some (Inl e, id')
                       | Inr v_j' \<Rightarrow> f id' v_j')))
          else Some (Inr v, xs)) = Some r"
  show "\<forall>e ys. r = (Inl e, ys) \<longrightarrow> e = IndexError \<or> e = ValueError"
    using eq IH
    by (auto split: sum.splits if_splits dest: take_np_error put_np_error)
qed

lemma path_halving_error:
  "path_halving_loop xs v = Some (Inl e, ys) \<Longrightarrow> e = IndexError \<or> e = ValueError"
  using path_halving_error_gen by blast

lemma full_pc_loop_error_gen:
  assumes ret: "full_pc_loop xs v w = Some r"
  shows "\<forall>e ys. r = (Inl e, ys) \<longrightarrow> e = IndexError \<or> e = ValueError"
proof (rule full_pc_loop.raw_induct[where
      P = "\<lambda>xs v w r. \<forall>e ys. r = (Inl e, ys) \<longrightarrow> e = IndexError \<or> e = ValueError", OF _ ret])
  fix f xs v w r
  assume IH: "\<And>xs v w r. f xs v w = Some r \<Longrightarrow>
               \<forall>e ys. r = (Inl e, ys) \<longrightarrow> e = IndexError \<or> e = ValueError"
    and eq: "(if v \<noteq> w then
        (case take_np xs v of
           Inl e \<Rightarrow> Some (Inl e, xs)
         | Inr v_j_new \<Rightarrow>
             (case put_np xs v w of
                Inl e \<Rightarrow> Some (Inl e, xs)
              | Inr id' \<Rightarrow> f id' v_j_new w))
      else Some (Inr (), xs)) = Some r"
  show "\<forall>e ys. r = (Inl e, ys) \<longrightarrow> e = IndexError \<or> e = ValueError"
    using eq IH
    by (auto split: sum.splits if_splits dest: take_np_error put_np_error)
qed

lemma full_pc_loop_error:
  "full_pc_loop xs v w = Some (Inl e, ys) \<Longrightarrow> e = IndexError \<or> e = ValueError"
  using full_pc_loop_error_gen by blast

lemma lookup_error:
  assumes "lookup xs v pc t = Some (Inl e, ys)"
  shows "e = IndexError \<or> e = ValueError"
proof (cases pc)
  case False
  with assms show ?thesis by (auto simp: lookup_def dest: root_error)
next
  case True
  with assms have r: "root_path_compression xs v t = Some (Inl e, ys)" by (simp add: lookup_def)
  show ?thesis
  proof (cases "t = ''path_halving''")
    case True
    with r show ?thesis by (auto simp: root_path_compression_def dest: path_halving_error)
  next
    case False
    with r show ?thesis
      by (auto simp: root_path_compression_def
          split: if_splits option.splits sum.splits prod.splits
          dest: root_error full_pc_loop_error)
  qed
qed

lemma attach_error: "attach s tbl a ai b bi = (Inl e, s') \<Longrightarrow> e \<noteq> InvalidArgument"
  by (auto simp: attach_def split: sum.splits option.splits dest: put_np_error)

lemma ensure_size_error: "ensure_size s = Inl e \<Longrightarrow> e = TypeError"
  by (auto simp: ensure_size_def split: option.splits if_splits)

lemma index_of_error: "index_of tbl r = Inl e \<Longrightarrow> e = TypeError"
  by (auto simp: index_of_def split: list.splits)

lemma weighted_union_ints_error:
  assumes "weighted_union_ints s a b pc t = Some (Inl e, s')"
  shows "e \<noteq> InvalidArgument"
proof
  assume e: "e = InvalidArgument"
  from assms show False
    unfolding weighted_union_ints_def e
    by (auto simp: Let_def split: option.splits sum.splits prod.splits if_splits
        dest: lookup_error ensure_size_error index_of_error attach_error)
qed

lemma all_eq_same: "all_eq i i"
  by (simp add: all_eq_def)

section \<open>Putting roots under roots\<close>

lemma fold_put_some:
  assumes "\<forall>(i, w) \<in> set ps. vertex n i" and "length xs = n"
  shows "length (fold (\<lambda>(i, w) a. a[pos n i := w]) ps xs) = n \<and>
         (\<forall>u. vertex n u \<longrightarrow>
            (if u \<in> fst ` set ps
             then \<exists>w. (u, w) \<in> set ps \<and> fold (\<lambda>(i, w) a. a[pos n i := w]) ps xs ! nat u = w
             else fold (\<lambda>(i, w) a. a[pos n i := w]) ps xs ! nat u = xs ! nat u))"
  using assms
proof (induction ps arbitrary: xs)
  case Nil
  then show ?case by simp
next
  case (Cons p ps)
  obtain i w where p: "p = (i, w)" by (cases p)
  with Cons.prems have i: "vertex n i" by simp
  let ?F = "\<lambda>(i, w) a. a[pos n i := w]"
  let ?xs1 = "xs[nat i := w]"
  have IH: "length (fold ?F ps ?xs1) = n \<and>
         (\<forall>u. vertex n u \<longrightarrow>
            (if u \<in> fst ` set ps
             then \<exists>w. (u, w) \<in> set ps \<and> fold ?F ps ?xs1 ! nat u = w
             else fold ?F ps ?xs1 ! nat u = ?xs1 ! nat u))"
    using Cons.prems by (intro Cons.IH) simp_all
  have unfold: "fold ?F (p # ps) xs = fold ?F ps ?xs1"
    using p i by (simp add: vertex_pos)
  have upd: "?xs1 ! nat u = (if u = i then w else xs ! nat u)" if "vertex n u" for u
    using that i Cons.prems(2) by (auto simp: vertex_def nth_list_update)
  show ?case
    unfolding unfold
  proof (intro conjI allI impI)
    show "length (fold ?F ps ?xs1) = n" using IH by simp
  next
    fix u assume u: "vertex n u"
    show "if u \<in> fst ` set (p # ps)
          then \<exists>w. (u, w) \<in> set (p # ps) \<and> fold ?F ps ?xs1 ! nat u = w
          else fold ?F ps ?xs1 ! nat u = xs ! nat u"
    proof (cases "u \<in> fst ` set ps")
      case True
      from IH u have "if u \<in> fst ` set ps
             then \<exists>w. (u, w) \<in> set ps \<and> fold ?F ps ?xs1 ! nat u = w
             else fold ?F ps ?xs1 ! nat u = ?xs1 ! nat u" by blast
      with True have "\<exists>w. (u, w) \<in> set ps \<and> fold ?F ps ?xs1 ! nat u = w" by simp
      then obtain w' where "(u, w') \<in> set ps" "fold ?F ps ?xs1 ! nat u = w'" by blast
      then show ?thesis using True by auto
    next
      case False
      from IH u have "if u \<in> fst ` set ps
             then \<exists>w. (u, w) \<in> set ps \<and> fold ?F ps ?xs1 ! nat u = w
             else fold ?F ps ?xs1 ! nat u = ?xs1 ! nat u" by blast
      with False have eq: "fold ?F ps ?xs1 ! nat u = ?xs1 ! nat u" by simp
      show ?thesis
      proof (cases "u = i")
        case True
        with eq upd[OF u] p show ?thesis by auto
      next
        case ni: False
        with eq upd[OF u] p False show ?thesis by auto
      qed
    qed
  qed
qed

lemma put_np_some:
  assumes idx: "\<forall>v \<in> set idx. vertex (length xs) v" and len: "length ws = length idx"
  shows "\<exists>ys. put_np xs idx ws = Inr ys \<and> length ys = length xs \<and>
           (\<forall>u. vertex (length xs) u \<longrightarrow> u \<notin> set idx \<longrightarrow> at ys u = at xs u) \<and>
           (\<forall>u \<in> set idx. \<exists>k<length idx. idx ! k = u \<and> at ys u = ws ! k)"
proof -
  let ?ps = "zip idx ws"
  let ?ys = "fold (\<lambda>(i, w) a. a[pos (length xs) i := w]) ?ps xs"
  have "\<forall>(i, w) \<in> set ?ps. vertex (length xs) i"
    using idx by (auto dest: set_zip_leftD)
  then have fp: "length ?ys = length xs \<and>
         (\<forall>u. vertex (length xs) u \<longrightarrow>
            (if u \<in> fst ` set ?ps
             then \<exists>w. (u, w) \<in> set ?ps \<and> ?ys ! nat u = w
             else ?ys ! nat u = xs ! nat u))"
    by (rule fold_put_some) simp
  have fst: "fst ` set ?ps = set idx" using len by (simp flip: set_map)
  have "list_all (valid_index (length xs)) idx"
    using idx by (simp add: list_all_iff vertex_valid_index)
  then have put: "put_np xs idx ws = Inr ?ys"
    using len by (simp add: put_np_def broadcast_def)
  have out: "\<forall>u. vertex (length xs) u \<longrightarrow> u \<notin> set idx \<longrightarrow> at ?ys u = at xs u"
    using fp fst by (simp add: at_def vertex_pos)
  have inn: "\<forall>u \<in> set idx. \<exists>k<length idx. idx ! k = u \<and> at ?ys u = ws ! k"
  proof
    fix u assume u: "u \<in> set idx"
    with idx have vu: "vertex (length xs) u" by simp
    from fp vu have "if u \<in> fst ` set ?ps
             then \<exists>w. (u, w) \<in> set ?ps \<and> ?ys ! nat u = w
             else ?ys ! nat u = xs ! nat u" by blast
    with fst u have "\<exists>w. (u, w) \<in> set ?ps \<and> ?ys ! nat u = w" by simp
    then obtain w where w: "(u, w) \<in> set ?ps" "?ys ! nat u = w" by blast
    from w(1) obtain k where "k < length idx" "idx ! k = u" "ws ! k = w"
      using len by (auto simp: in_set_zip)
    then show "\<exists>k<length idx. idx ! k = u \<and> at ?ys u = ws ! k"
      using w(2) vu fp by (auto simp: at_def vertex_pos)
  qed
  from put fp out inn show ?thesis by blast
qed

lemma put_np_reparented:
  assumes "\<forall>v \<in> set i. vertex (length xs) v" "length j = length i"
  shows "\<exists>ys. put_np xs i j = Inr ys \<and> reparented xs i j ys"
  using put_np_some[OF assms] unfolding reparented_def by blast

lemma reparented_out:
  "reparented xs i j ys \<Longrightarrow> vertex (length xs) u \<Longrightarrow> u \<notin> set i \<Longrightarrow> at ys u = at xs u"
  by (simp add: reparented_def)

lemma reparented_in:
  "reparented xs i j ys \<Longrightarrow> u \<in> set i \<Longrightarrow> \<exists>k<length i. i ! k = u \<and> at ys u = j ! k"
  by (simp add: reparented_def)

lemma reparented_length: "reparented xs i j ys \<Longrightarrow> length ys = length xs"
  by (simp add: reparented_def)

lemma reparent_nonroot:
  assumes vf: "valid_forest xs0" and c: "compressed xs0 xs" and rp: "reparented xs i j ys"
    and ri: "\<forall>v \<in> set i. vertex (length xs0) v \<and> rootof xs0 v = v"
    and v: "vertex (length xs0) v" and nr: "rootof xs0 v \<noteq> v"
  shows "at ys v = at xs v" "vertex (length xs0) (at xs v)"
    "rootof xs0 (at xs v) = rootof xs0 v" "dist xs0 (at xs v) < dist xs0 v"
proof -
  have lx: "length xs = length xs0" by (rule compressed_length[OF c])
  from nr ri have ni: "v \<notin> set i" by auto
  from v have vx: "vertex (length xs) v" by (simp add: lx)
  show "at ys v = at xs v" by (rule reparented_out[OF rp vx ni])
  show "vertex (length xs0) (at xs v)" by (rule compressed_at_vertex[OF c v])
  show "rootof xs0 (at xs v) = rootof xs0 v" by (rule compressed_at_rootof[OF c v])
  have "at xs v \<noteq> v" using compressed_root_iff[OF vf c v] nr by simp
  then show "dist xs0 (at xs v) < dist xs0 v" by (rule compressed_at_dist_less[OF c v])
qed

lemma reparent_main_fixed:
  assumes vf: "valid_forest xs0" and c: "compressed xs0 xs" and rp: "reparented xs i j ys"
    and len: "length j = length i"
    and rj: "\<forall>v \<in> set j. vertex (length xs0) v \<and> rootof xs0 v = v"
    and b: "keeps_main_roots i j"
    and w: "w \<in> set j"
  shows "at ys w = w"
proof (cases "w \<in> set i")
  case False
  have lx: "length xs = length xs0" by (rule compressed_length[OF c])
  from w rj have wv: "vertex (length xs0) w" and wr: "rootof xs0 w = w" by auto
  have "at xs w = w" using compressed_root_iff[OF vf c wv] wr by simp
  moreover have "at ys w = at xs w" using reparented_out[OF rp _ False] wv lx by simp
  ultimately show ?thesis by simp
next
  case True
  from reparented_in[OF rp True] obtain k where
    k: "k < length i" "i ! k = w" "at ys w = j ! k" by blast
  from w obtain k0 where k0: "k0 < length j" "j ! k0 = w" by (auto simp: in_set_conv_nth)
  from k0(1) len have k0i: "k0 < length i" by simp
  from b k0i k(1) have "j ! k0 = i ! k \<longrightarrow> j ! k = i ! k"
    unfolding keeps_main_roots_def by blast
  with k0(2) k(2) have "j ! k = i ! k" by simp
  with k show ?thesis by simp
qed

lemma reparent_root_target:
  assumes vf: "valid_forest xs0" and c: "compressed xs0 xs" and rp: "reparented xs i j ys"
    and len: "length j = length i"
    and rj: "\<forall>v \<in> set j. vertex (length xs0) v \<and> rootof xs0 v = v"
    and b: "keeps_main_roots i j"
    and v: "vertex (length xs0) v" and rt: "rootof xs0 v = v"
  shows "vertex (length xs0) (at ys v)" "rootof xs0 (at ys v) = at ys v"
    "at ys (at ys v) = at ys v"
proof -
  have lx: "length xs = length xs0" by (rule compressed_length[OF c])
  have "vertex (length xs0) (at ys v) \<and> rootof xs0 (at ys v) = at ys v \<and>
        at ys (at ys v) = at ys v"
  proof (cases "v \<in> set i")
    case True
    from reparented_in[OF rp True] obtain k where k: "k < length i" "at ys v = j ! k" by blast
    then have mem: "at ys v \<in> set j" using len by simp
    from mem rj have "vertex (length xs0) (at ys v)" "rootof xs0 (at ys v) = at ys v" by auto
    moreover have "at ys (at ys v) = at ys v"
      by (rule reparent_main_fixed[OF vf c rp len rj b mem])
    ultimately show ?thesis by simp
  next
    case False
    have "at xs v = v" using compressed_root_iff[OF vf c v] rt by simp
    moreover have "at ys v = at xs v" using reparented_out[OF rp _ False] v lx by simp
    ultimately show ?thesis using v rt by simp
  qed
  then show "vertex (length xs0) (at ys v)" "rootof xs0 (at ys v) = at ys v"
    "at ys (at ys v) = at ys v" by simp_all
qed

lemma reparent_valid:
  assumes vf: "valid_forest xs0" and c: "compressed xs0 xs" and rp: "reparented xs i j ys"
    and len: "length j = length i"
    and ri: "\<forall>v \<in> set i. vertex (length xs0) v \<and> rootof xs0 v = v"
    and rj: "\<forall>v \<in> set j. vertex (length xs0) v \<and> rootof xs0 v = v"
    and b: "keeps_main_roots i j"
  shows "valid_forest ys"
proof -
  let ?r = "rootof xs0"
  let ?d = "\<lambda>v. dist xs0 v + (if at ys (?r v) \<noteq> ?r v then 1 else 0)"
  have ly: "length ys = length xs0"
    using reparented_length[OF rp] compressed_length[OF c] by simp
  have clo: "vertex (length xs0) (at ys v)" if v: "vertex (length xs0) v" for v
  proof (cases "?r v = v")
    case True
    then show ?thesis by (rule reparent_root_target(1)[OF vf c rp len rj b v])
  next
    case False
    from reparent_nonroot(1,2)[OF vf c rp ri v False] show ?thesis by simp
  qed
  have dec: "?d (at ys v) < ?d v" if v: "vertex (length xs0) v" and ne: "at ys v \<noteq> v" for v
  proof (cases "?r v = v")
    case True
    note w = reparent_root_target[OF vf c rp len rj b v True]
    have "dist xs0 (at ys v) = dist xs0 (?r (at ys v))" using w(2) by simp
    also have "\<dots> = 0" by (rule rootof_dist_zero[OF vf w(1)])
    finally have d0: "dist xs0 (at ys v) = 0" .
    have lhs: "?d (at ys v) = 0" using d0 w(2,3) by simp
    have rhs: "0 < ?d v" using ne True by simp
    from lhs rhs show ?thesis by simp
  next
    case False
    note n = reparent_nonroot[OF vf c rp ri v False]
    have "?d (at ys v) = dist xs0 (at xs v) + (if at ys (?r v) \<noteq> ?r v then 1 else 0)"
      using n(1,3) by simp
    also have "\<dots> < ?d v" using n(4) by simp
    finally show ?thesis .
  qed
  have "ranked ys ?d"
    unfolding ranked_def ly using clo dec by blast
  then show ?thesis by (rule ranked_valid_forest)
qed

lemma reparent_rootof:
  assumes vf: "valid_forest xs0" and c: "compressed xs0 xs" and rp: "reparented xs i j ys"
    and len: "length j = length i"
    and ri: "\<forall>v \<in> set i. vertex (length xs0) v \<and> rootof xs0 v = v"
    and rj: "\<forall>v \<in> set j. vertex (length xs0) v \<and> rootof xs0 v = v"
    and b: "keeps_main_roots i j"
    and v: "vertex (length xs0) v"
  shows "rootof ys v = at ys (rootof xs0 v)"
proof -
  let ?r = "rootof xs0"
  have ly: "length ys = length xs0"
    using reparented_length[OF rp] compressed_length[OF c] by simp
  have vfy: "valid_forest ys" by (rule reparent_valid[OF vf c rp len ri rj b])
  have pres: "at ys (?r (at ys u)) = at ys (?r u)" if u: "vertex (length xs0) u" for u
  proof (cases "?r u = u")
    case True
    note w = reparent_root_target[OF vf c rp len rj b u True]
    from w(2,3) True show ?thesis by simp
  next
    case False
    from reparent_nonroot(1,3)[OF vf c rp ri u False] show ?thesis by simp
  qed
  have fx: "at ys (?r u) = u" if u: "vertex (length xs0) u" and f: "at ys u = u" for u
  proof (cases "?r u = u")
    case True
    with f show ?thesis by simp
  next
    case False
    from reparent_nonroot(1,4)[OF vf c rp ri u False] f show ?thesis by simp
  qed
  show ?thesis
  proof (rule rootof_unique[OF vfy, where r = "\<lambda>v. at ys (?r v)"])
    show "vertex (length ys) v" using v ly by simp
  next
    fix u assume "vertex (length ys) u"
    then show "at ys (?r (at ys u)) = at ys (?r u)" using pres ly by simp
  next
    fix u assume "vertex (length ys) u" "at ys u = u"
    then show "at ys (?r u) = u" using fx ly by simp
  qed
qed

lemma all_eq_same_length: "length i = length j \<Longrightarrow> all_eq i j = (i = j)"
  by (simp add: all_eq_def)

lemma rootof_is_root_set:
  assumes vf: "valid_forest xs0" and vs: "\<forall>v \<in> set vs. vertex (length xs0) v"
  shows "\<forall>v \<in> set (map (rootof xs0) vs). vertex (length xs0) v \<and> rootof xs0 v = v"
  using vs by (auto simp: rootof_vertex[OF vf] rootof_rootof[OF vf])

lemma lookup_any:
  assumes vf: "valid_forest xs0" and c: "compressed xs0 xs"
    and vs: "\<forall>v \<in> set vs. vertex (length xs0) v" and m: "pc_mode t \<or> \<not> pc"
  shows "\<exists>xs'. lookup xs vs pc t = Some (Inr (map (rootof xs0) vs), xs') \<and> compressed xs0 xs'"
proof (cases pc)
  case True
  with m have "pc_mode t" by simp
  from lookup_vertex[OF vf c vs this, of pc] show ?thesis by blast
next
  case False
  with lookup_plain[OF vf c vs, of t] c show ?thesis by simp
qed

lemma build_quick_union_vertex:
  assumes vf: "valid_forest xs" and m: "pc_mode t \<or> \<not> pc"
    and mi: "\<forall>v \<in> set minor. vertex (length xs) v"
    and ma: "\<forall>v \<in> set main. vertex (length xs) v"
    and len: "length minor = length main"
    and b: "keeps_main_roots (map (rootof xs) minor) (map (rootof xs) main)"
  shows "\<exists>ys. build_quick_union xs minor main pc t = Some (Inr (), ys) \<and>
           length ys = length xs \<and> valid_forest ys \<and>
           (\<forall>v. vertex (length xs) v \<longrightarrow> rootof ys v = at ys (rootof xs v)) \<and>
           (\<forall>w \<in> set (map (rootof xs) main). at ys w = w) \<and>
           (\<forall>u \<in> set (map (rootof xs) minor).
              \<exists>k<length minor. rootof xs (minor ! k) = u \<and> at ys u = rootof xs (main ! k))"
proof -
  let ?i = "map (rootof xs) minor" and ?j = "map (rootof xs) main"
  from lookup_any[OF vf compressed_refl[OF vf] mi m] obtain xs1 where
    x1: "lookup xs minor pc t = Some (Inr ?i, xs1)" "compressed xs xs1" by blast
  from lookup_any[OF vf x1(2) ma m] obtain xs2 where
    x2: "lookup xs1 main pc t = Some (Inr ?j, xs2)" "compressed xs xs2" by blast
  have lij: "length ?j = length ?i" using len by simp
  note ri = rootof_is_root_set[OF vf mi] and rj = rootof_is_root_set[OF vf ma]
  have l2: "length xs2 = length xs" by (rule compressed_length[OF x2(2)])
  show ?thesis
  proof (cases "?i = ?j")
    case True
    have run: "build_quick_union xs minor main pc t = Some (Inr (), xs2)"
      using x1(1) x2(1) True by (simp add: build_quick_union_def all_eq_same)
    have fixed: "\<forall>w \<in> set ?j. at xs2 w = w"
    proof
      fix w assume "w \<in> set ?j"
      with rj have "vertex (length xs) w" "rootof xs w = w" by auto
      then show "at xs2 w = w" using compressed_root_iff[OF vf x2(2)] by simp
    qed
    have roots: "\<forall>v. vertex (length xs) v \<longrightarrow> rootof xs2 v = at xs2 (rootof xs v)"
    proof (intro allI impI)
      fix v assume v: "vertex (length xs) v"
      have rv: "vertex (length xs) (rootof xs v)" by (rule rootof_vertex[OF vf v])
      have "at xs2 (rootof xs v) = rootof xs v"
        using compressed_root_iff[OF vf x2(2) rv] rootof_rootof[OF vf v] by simp
      then show "rootof xs2 v = at xs2 (rootof xs v)" using compressed_rootof[OF x2(2) v] by simp
    qed
    have inn: "\<forall>u \<in> set ?i.
        \<exists>k<length minor. rootof xs (minor ! k) = u \<and> at xs2 u = rootof xs (main ! k)"
    proof
      fix u assume u: "u \<in> set ?i"
      then obtain k where k: "k < length minor" "?i ! k = u"
        by (auto simp: in_set_conv_nth)
      then have a: "rootof xs (minor ! k) = u" by simp
      have "?j ! k = u" using True k by simp
      then have b': "rootof xs (main ! k) = u" using k(1) len by simp
      from u True have "u \<in> set ?j" by (simp only:)
      with fixed have "at xs2 u = u" by (rule bspec)
      with a b' k(1) show "\<exists>k<length minor. rootof xs (minor ! k) = u \<and>
          at xs2 u = rootof xs (main ! k)" by auto
    qed
    show ?thesis
    proof (intro exI[of _ xs2] conjI)
      show "build_quick_union xs minor main pc t = Some (Inr (), xs2)" by (rule run)
      show "length xs2 = length xs" by (rule l2)
      show "valid_forest xs2" by (rule compressed_valid[OF x2(2)])
      show "\<forall>v. vertex (length xs) v \<longrightarrow> rootof xs2 v = at xs2 (rootof xs v)" by (rule roots)
      show "\<forall>w \<in> set ?j. at xs2 w = w" by (rule fixed)
      show "\<forall>u \<in> set ?i.
        \<exists>k<length minor. rootof xs (minor ! k) = u \<and> at xs2 u = rootof xs (main ! k)"
        by (rule inn)
    qed
  next
    case False
    have iv: "\<forall>v \<in> set ?i. vertex (length xs2) v" using ri l2 by simp
    from put_np_reparented[OF iv lij] obtain ys where
      ys: "put_np xs2 ?i ?j = Inr ys" "reparented xs2 ?i ?j ys" by blast
    have run: "build_quick_union xs minor main pc t = Some (Inr (), ys)"
      using x1(1) x2(1) False ys(1) len
      by (simp add: build_quick_union_def all_eq_same_length)
    have ly: "length ys = length xs" using reparented_length[OF ys(2)] l2 by simp
    have vfy: "valid_forest ys" by (rule reparent_valid[OF vf x2(2) ys(2) lij ri rj b])
    have roots: "\<forall>v. vertex (length xs) v \<longrightarrow> rootof ys v = at ys (rootof xs v)"
      using reparent_rootof[OF vf x2(2) ys(2) lij ri rj b] by blast
    have fixed: "\<forall>w \<in> set ?j. at ys w = w"
      using reparent_main_fixed[OF vf x2(2) ys(2) lij rj b] by blast
    have inn: "\<forall>u \<in> set ?i.
        \<exists>k<length minor. rootof xs (minor ! k) = u \<and> at ys u = rootof xs (main ! k)"
    proof
      fix u assume u: "u \<in> set ?i"
      from reparented_in[OF ys(2) u] obtain k where
        k: "k < length ?i" "?i ! k = u" "at ys u = ?j ! k" by blast
      then have "k < length minor" "rootof xs (minor ! k) = u" "at ys u = rootof xs (main ! k)"
        using len by simp_all
      then show "\<exists>k<length minor. rootof xs (minor ! k) = u \<and>
          at ys u = rootof xs (main ! k)" by blast
    qed
    show ?thesis
    proof (intro exI[of _ ys] conjI)
      show "build_quick_union xs minor main pc t = Some (Inr (), ys)" by (rule run)
      show "length ys = length xs" by (rule ly)
      show "valid_forest ys" by (rule vfy)
      show "\<forall>v. vertex (length xs) v \<longrightarrow> rootof ys v = at ys (rootof xs v)" by (rule roots)
      show "\<forall>w \<in> set ?j. at ys w = w" by (rule fixed)
      show "\<forall>u \<in> set ?i.
        \<exists>k<length minor. rootof xs (minor ! k) = u \<and> at ys u = rootof xs (main ! k)"
        by (rule inn)
    qed
  qed
qed

lemma keeps_main_roots_single: "keeps_main_roots [x] [y]"
  by (simp add: keeps_main_roots_def)

lemma attach_id:
  assumes "put_np (id_updated s) [a] [b] = Inr ys"
  shows "id_updated (snd (attach s tbl a ai b bi)) = ys"
  using assms by (simp add: attach_def split: option.splits)

lemma ensure_size_id: "ensure_size s = Inr (s3, tbl) \<Longrightarrow> id_updated s3 = id_updated s"
  by (auto simp: ensure_size_def split: option.splits if_splits)

lemma attach_roots:
  assumes vf: "valid_forest xs0" and c: "compressed xs0 (id_updated s)"
    and x: "vertex (length xs0) x" "rootof xs0 x = x"
    and y: "vertex (length xs0) y" "rootof xs0 y = y"
  shows "\<exists>ys. id_updated (snd (attach s tbl x xi y yi)) = ys \<and> length ys = length xs0 \<and>
           valid_forest ys \<and> at ys x = y \<and> at ys y = y \<and>
           (\<forall>v. vertex (length xs0) v \<longrightarrow> rootof ys v = at ys (rootof xs0 v))"
proof -
  let ?xs = "id_updated s"
  have lx: "length ?xs = length xs0" by (rule compressed_length[OF c])
  have iv: "\<forall>v \<in> set [x]. vertex (length ?xs) v" using x(1) lx by simp
  have lij: "length [y] = length [x]" by simp
  from put_np_reparented[OF iv lij] obtain ys where
    ys: "put_np ?xs [x] [y] = Inr ys" "reparented ?xs [x] [y] ys" by blast
  have ri: "\<forall>v \<in> set [x]. vertex (length xs0) v \<and> rootof xs0 v = v" using x by simp
  have rj: "\<forall>v \<in> set [y]. vertex (length xs0) v \<and> rootof xs0 v = v" using y by simp
  note b = keeps_main_roots_single[of x y]
  have ly: "length ys = length xs0" using reparented_length[OF ys(2)] lx by simp
  have vfy: "valid_forest ys" by (rule reparent_valid[OF vf c ys(2) lij ri rj b])
  have yy: "at ys y = y" by (rule reparent_main_fixed[OF vf c ys(2) lij rj b]) simp
  have "x \<in> set [x]" by simp
  from reparented_in[OF ys(2) this] have xy: "at ys x = y" by simp
  have roots: "\<forall>v. vertex (length xs0) v \<longrightarrow> rootof ys v = at ys (rootof xs0 v)"
    using reparent_rootof[OF vf c ys(2) lij ri rj b] by blast
  show ?thesis
  proof (intro exI[of _ ys] conjI)
    show "id_updated (snd (attach s tbl x xi y yi)) = ys" by (rule attach_id[OF ys(1)])
    show "length ys = length xs0" by (rule ly)
    show "valid_forest ys" by (rule vfy)
    show "at ys x = y" by (rule xy)
    show "at ys y = y" by (rule yy)
    show "\<forall>v. vertex (length xs0) v \<longrightarrow> rootof ys v = at ys (rootof xs0 v)" by (rule roots)
  qed
qed

lemma weighted_union_ints_vertex:
  assumes vf: "valid_forest (id_updated s)" and m: "pc_mode t \<or> \<not> pc"
    and a: "vertex (length (id_updated s)) a" and b: "vertex (length (id_updated s)) b"
  shows "\<exists>res s'. weighted_union_ints s a b pc t = Some (res, s') \<and>
           valid_forest (id_updated s') \<and> length (id_updated s') = length (id_updated s) \<and>
           (res = Inr () \<longrightarrow> rootof (id_updated s') a = rootof (id_updated s') b)"
proof -
  let ?xs = "id_updated s"
  let ?i = "rootof ?xs a" and ?j = "rootof ?xs b"
  have av: "\<forall>v \<in> set [a]. vertex (length ?xs) v" using a by simp
  have bv: "\<forall>v \<in> set [b]. vertex (length ?xs) v" using b by simp
  from lookup_any[OF vf compressed_refl[OF vf] av m] obtain xs1 where
    x1: "lookup ?xs [a] pc t = Some (Inr [?i], xs1)" "compressed ?xs xs1" by auto
  from lookup_any[OF vf x1(2) bv m] obtain xs2 where
    x2: "lookup xs1 [b] pc t = Some (Inr [?j], xs2)" "compressed ?xs xs2" by auto
  let ?s2 = "s\<lparr>id_updated := xs2\<rparr>"
  have l2: "length xs2 = length ?xs" by (rule compressed_length[OF x2(2)])
  have v2: "valid_forest xs2" by (rule compressed_valid[OF x2(2)])
  have r2: "rootof xs2 v = rootof ?xs v" if "vertex (length ?xs) v" for v
    by (rule compressed_rootof[OF x2(2) that])
  have iv: "vertex (length ?xs) ?i" "rootof ?xs ?i = ?i"
    using rootof_vertex[OF vf a] rootof_rootof[OF vf a] by simp_all
  have jv: "vertex (length ?xs) ?j" "rootof ?xs ?j = ?j"
    using rootof_vertex[OF vf b] rootof_rootof[OF vf b] by simp_all
  have run: "weighted_union_ints s a b pc t =
     (if ?i = ?j then Some (Inr (), ?s2)
      else (case ensure_size ?s2 of
              Inl e \<Rightarrow> Some (Inl e, ?s2)
            | Inr (s3, tbl) \<Rightarrow>
                (case index_of tbl ?i of
                   Inl e \<Rightarrow> Some (Inl e, s3)
                 | Inr i_index \<Rightarrow>
                     (case index_of tbl ?j of
                        Inl e \<Rightarrow> Some (Inl e, s3)
                      | Inr j_index \<Rightarrow>
                          if snd (tbl ! i_index) \<le> snd (tbl ! j_index)
                          then Some (attach s3 tbl ?i i_index ?j j_index)
                          else Some (attach s3 tbl ?j j_index ?i i_index)))))"
    using x1(1) x2(1) by (simp add: weighted_union_ints_def Let_def)
  let ?P = "\<lambda>(res :: error + unit) s'.
     valid_forest (id_updated s') \<and> length (id_updated s') = length ?xs \<and>
     (res = Inr () \<longrightarrow> rootof (id_updated s') a = rootof (id_updated s') b)"
  have same: "?P res s3" if "id_updated s3 = xs2" "res \<noteq> Inr () \<or> ?i = ?j"
    for s3 and res :: "error + unit"
    using that v2 l2 r2[OF a] r2[OF b] by auto
  have att: "?P (fst (attach s3 tbl x xi y yi)) (snd (attach s3 tbl x xi y yi))"
    if s3: "id_updated s3 = xs2" and xy: "(x = ?i \<and> y = ?j) \<or> (x = ?j \<and> y = ?i)"
    for s3 tbl x xi y yi
  proof -
    from xy iv jv have x: "vertex (length ?xs) x" "rootof ?xs x = x"
      and y: "vertex (length ?xs) y" "rootof ?xs y = y" by auto
    have c3: "compressed ?xs (id_updated s3)" using x2(2) s3 by simp
    from attach_roots[OF vf c3 x y, of tbl xi yi] obtain ys where
      ys: "id_updated (snd (attach s3 tbl x xi y yi)) = ys" "length ys = length ?xs"
        "valid_forest ys" "at ys x = y" "at ys y = y"
        "\<forall>v. vertex (length ?xs) v \<longrightarrow> rootof ys v = at ys (rootof ?xs v)" by blast
    have "at ys ?i = at ys ?j" using xy ys(4,5) by auto
    then have eq: "rootof ys a = rootof ys b" using ys(6) a b by simp
    from ys(1,2,3) eq show ?thesis by simp
  qed
  have fin: "\<exists>res s'. weighted_union_ints s a b pc t = Some (res, s') \<and> ?P res s'"
    if "weighted_union_ints s a b pc t = Some (res, s')" "?P res s'" for res s'
    using that by blast
  show ?thesis
  proof (cases "?i = ?j")
    case True
    with run have r: "weighted_union_ints s a b pc t = Some (Inr (), ?s2)" by simp
    have "?P (Inr ()) ?s2" using same[of ?s2 "Inr ()"] True by simp
    from fin[OF r this] show ?thesis by simp
  next
    case ne: False
    show ?thesis
    proof (cases "ensure_size ?s2")
      case (Inl e)
      with run ne have r: "weighted_union_ints s a b pc t = Some (Inl e, ?s2)" by simp
      have "?P (Inl e) ?s2" using same[of ?s2 "Inl e"] by simp
      from fin[OF r this] show ?thesis by simp
    next
      case (Inr p)
      obtain s3 tbl where p: "p = (s3, tbl)" by (cases p)
      from ensure_size_id[OF Inr[unfolded p]] have s3: "id_updated s3 = xs2" by simp
      show ?thesis
      proof (cases "index_of tbl ?i")
        case (Inl e)
        with run ne Inr p have r: "weighted_union_ints s a b pc t = Some (Inl e, s3)" by simp
        have "?P (Inl e) s3" using same[OF s3, of "Inl e"] by simp
        from fin[OF r this] show ?thesis by simp
      next
        case ii: (Inr i_index)
        show ?thesis
        proof (cases "index_of tbl ?j")
          case (Inl e)
          with run ne Inr p ii have r: "weighted_union_ints s a b pc t = Some (Inl e, s3)"
            by simp
          have "?P (Inl e) s3" using same[OF s3, of "Inl e"] by simp
          from fin[OF r this] show ?thesis by simp
        next
          case jj: (Inr j_index)
          show ?thesis
          proof (cases "snd (tbl ! i_index) \<le> snd (tbl ! j_index)")
            case True
            let ?q = "attach s3 tbl ?i i_index ?j j_index"
            from run ne Inr p ii jj True
            have r: "weighted_union_ints s a b pc t = Some (fst ?q, snd ?q)" by simp
            have "?P (fst ?q) (snd ?q)" by (rule att[OF s3]) simp
            from fin[OF r this] show ?thesis by simp
          next
            case False
            let ?q = "attach s3 tbl ?j j_index ?i i_index"
            from run ne Inr p ii jj False
            have r: "weighted_union_ints s a b pc t = Some (fst ?q, snd ?q)" by simp
            have "?P (fst ?q) (snd ?q)" by (rule att[OF s3]) simp
            from fin[OF r this] show ?thesis by simp
          qed
        qed
      qed
    qed
  qed
qed

lemma root_valid:
  assumes "valid_forest ys" "\<forall>v \<in> set vs. vertex (length ys) v"
  shows "root ys vs = Some (Inr (map (rootof ys) vs))"
  by (rule root_vertex[OF assms(1) compressed_refl[OF assms(1)] assms(2)])

lemma build_weighted_ints: 
  "build_weighted_quick_union s (PyInt a) (PyInt b) pc t = weighted_union_ints s a b pc t"
  by (simp add: build_weighted_quick_union_def)

lemma nth_vertex:
  assumes k: "k < length minor" and mi: "\<forall>v \<in> set minor. vertex n v"
  shows "vertex n (minor ! k)"
  using k mi by simp

lemma nth_root_mem:
  assumes k: "k < length minor"
  shows "rootof xs (minor ! k) \<in> set (map (rootof xs) minor)"
  using k by simp

lemma consistent_pairs_nth:
  assumes cp: "consistent_pairs (map (rootof xs) minor) (map (rootof xs) main)"
    and k: "k < length minor" and k': "k' < length minor" and len: "length minor = length main"
    and e: "rootof xs (minor ! k') = rootof xs (minor ! k)"
  shows "rootof xs (main ! k') = rootof xs (main ! k)"
proof -
  let ?i = "map (rootof xs) minor" and ?j = "map (rootof xs) main"
  have "k' < length ?i" "k < length ?i" using k k' by simp_all
  with cp have "?i ! k' = ?i ! k \<longrightarrow> ?j ! k' = ?j ! k"
    unfolding consistent_pairs_def by blast
  moreover have "?i ! k' = ?i ! k" using k k' e by simp
  ultimately have "?j ! k' = ?j ! k" by (rule mp)
  moreover have "k' < length main" "k < length main" using k k' len by simp_all
  ultimately show ?thesis by simp
qed

lemma build_quick_union_roots:
  assumes vf: "valid_forest xs" and m: "pc_mode t \<or> \<not> pc"
    and mi: "\<forall>v \<in> set minor. vertex (length xs) v"
    and ma: "\<forall>v \<in> set main. vertex (length xs) v"
    and len: "length minor = length main"
    and kb: "keeps_main_roots (map (rootof xs) minor) (map (rootof xs) main)"
    and cp: "consistent_pairs (map (rootof xs) minor) (map (rootof xs) main)"
  shows "\<exists>ys. build_quick_union xs minor main pc t = Some (Inr (), ys) \<and>
           length ys = length xs \<and> valid_forest ys \<and>
           map (rootof ys) minor = map (rootof ys) main"
proof -
  let ?i = "map (rootof xs) minor" and ?j = "map (rootof xs) main"
  from build_quick_union_vertex[OF vf m mi ma len kb] obtain ys where
    big: "build_quick_union xs minor main pc t = Some (Inr (), ys) \<and>
      length ys = length xs \<and> valid_forest ys \<and>
      (\<forall>v. vertex (length xs) v \<longrightarrow> rootof ys v = at ys (rootof xs v)) \<and>
      (\<forall>w \<in> set ?j. at ys w = w) \<and>
      (\<forall>u \<in> set ?i. \<exists>k<length minor. rootof xs (minor ! k) = u \<and>
          at ys u = rootof xs (main ! k))" ..
  note run = big[THEN conjunct1]
  note ly = big[THEN conjunct2, THEN conjunct1]
  note vfy = big[THEN conjunct2, THEN conjunct2, THEN conjunct1]
  note roots = big[THEN conjunct2, THEN conjunct2, THEN conjunct2, THEN conjunct1]
  note fixed = big[THEN conjunct2, THEN conjunct2, THEN conjunct2, THEN conjunct2, THEN conjunct1]
  note inn = big[THEN conjunct2, THEN conjunct2, THEN conjunct2, THEN conjunct2, THEN conjunct2]
  have eqk: "rootof ys (minor ! k) = rootof ys (main ! k)" if k: "k < length minor" for k
  proof -
    have km: "k < length main" using k len by simp
    have vmi: "vertex (length xs) (minor ! k)" by (rule nth_vertex[OF k mi])
    have vma: "vertex (length xs) (main ! k)" by (rule nth_vertex[OF km ma])
    have mem: "rootof xs (minor ! k) \<in> set ?i" by (rule nth_root_mem[OF k])
    from inn mem have "\<exists>k'<length minor. rootof xs (minor ! k') = rootof xs (minor ! k) \<and>
          at ys (rootof xs (minor ! k)) = rootof xs (main ! k')" by (rule bspec)
    then obtain k' where k': "k' < length minor"
      "rootof xs (minor ! k') = rootof xs (minor ! k)"
      "at ys (rootof xs (minor ! k)) = rootof xs (main ! k')" by blast
    have "rootof xs (main ! k') = rootof xs (main ! k)"
      by (rule consistent_pairs_nth[OF cp k k'(1) len k'(2)])
    with k'(3) have l: "at ys (rootof xs (minor ! k)) = rootof xs (main ! k)" by simp
    have "rootof xs (main ! k) \<in> set ?j" by (rule nth_root_mem[OF km])
    with fixed have r: "at ys (rootof xs (main ! k)) = rootof xs (main ! k)" by (rule bspec)
    have a1: "rootof ys (minor ! k) = at ys (rootof xs (minor ! k))"
      using roots[THEN spec, THEN mp, OF vmi] .
    have a2: "rootof ys (main ! k) = at ys (rootof xs (main ! k))"
      using roots[THEN spec, THEN mp, OF vma] .
    show ?thesis unfolding a1 a2 l r ..
  qed
  have eq: "map (rootof ys) minor = map (rootof ys) main"
  proof (rule nth_equalityI)
    show "length (map (rootof ys) minor) = length (map (rootof ys) main)" using len by simp
  next
    fix k assume "k < length (map (rootof ys) minor)"
    then have k: "k < length minor" by simp
    then have km: "k < length main" using len by simp
    show "map (rootof ys) minor ! k = map (rootof ys) main ! k"
      unfolding nth_map[OF k] nth_map[OF km] by (rule eqk[OF k])
  qed
  show ?thesis
  proof (intro exI[of _ ys] conjI)
    show "build_quick_union xs minor main pc t = Some (Inr (), ys)" by (rule run)
    show "length ys = length xs" by (rule ly)
    show "valid_forest ys" by (rule vfy)
    show "map (rootof ys) minor = map (rootof ys) main" by (rule eq)
  qed
qed

section \<open>Ids outside the array, and negative ids\<close>

lemma take_np_bad:
  assumes "b \<in> set vs" "\<not> valid_index (length xs) b"
  shows "take_np xs vs = Inl IndexError"
  using assms by (auto simp: take_np_def list_all_iff)

lemma root_bad:
  assumes "b \<in> set vs" "\<not> valid_index (length xs) b"
  shows "root xs vs = Some (Inl IndexError)"
  by (subst root.simps) (simp add: take_np_bad[OF assms])

lemma path_halving_bad:
  assumes "b \<in> set vs" "\<not> valid_index (length xs) b"
  shows "path_halving_loop xs vs = Some (Inl IndexError, xs)"
  by (subst path_halving_loop.simps) (simp add: take_np_bad[OF assms])

lemma root_path_compression_bad:
  assumes "b \<in> set vs" "\<not> valid_index (length xs) b" "pc_mode t"
  shows "root_path_compression xs vs t = Some (Inl IndexError, xs)"
  using assms(3) root_bad[OF assms(1,2)] path_halving_bad[OF assms(1,2)]
  by (auto simp: root_path_compression_def pc_mode_def)

lemma lookup_bad:
  assumes "b \<in> set vs" "\<not> valid_index (length xs) b" "pc_mode t \<or> \<not> pc"
  shows "lookup xs vs pc t = Some (Inl IndexError, xs)"
proof (cases pc)
  case True
  with assms(3) have "pc_mode t" by simp
  from root_path_compression_bad[OF assms(1,2) this] True show ?thesis by (simp add: lookup_def)
next
  case False
  with root_bad[OF assms(1,2)] show ?thesis by (simp add: lookup_def)
qed

lemma find_root_bad:
  assumes "b \<in> set vs" "\<not> valid_index (length xs) b" "pc_mode t \<or> \<not> pc"
  shows "find_root xs vs pc t = Some (Inl IndexError, xs)"
  by (simp add: find_root_def lookup_bad[OF assms])

lemma build_quick_union_bad_minor:
  assumes "b \<in> set minor" "\<not> valid_index (length xs) b" "pc_mode t \<or> \<not> pc"
  shows "build_quick_union xs minor main pc t = Some (Inl IndexError, xs)"
  by (simp add: build_quick_union_def lookup_bad[OF assms])

lemma weighted_bad_minor:
  assumes "\<not> valid_index (length (id_updated s)) a" "pc_mode t \<or> \<not> pc"
  shows "build_weighted_quick_union s (PyInt a) (PyInt b) pc t = Some (Inl IndexError, s)"
proof -
  have "a \<in> set [a]" by simp
  from lookup_bad[OF this assms] show ?thesis
    by (simp add: build_weighted_quick_union_def weighted_union_ints_def)
qed

lemma norm_vertex: "valid_index n v \<Longrightarrow> vertex n (norm n v)"
  by (auto simp: norm_def pos_def valid_index_def vertex_def)

lemma pos_norm: "valid_index n v \<Longrightarrow> pos n (norm n v) = pos n v"
  by (auto simp: norm_def pos_def valid_index_def)

lemma at_norm: "valid_index (length xs) v \<Longrightarrow> at xs (norm (length xs) v) = at xs v"
  by (simp add: at_def pos_norm)

lemma norm_of_vertex: "vertex n v \<Longrightarrow> norm n v = v"
  by (auto simp: norm_def pos_def vertex_def)

lemma take_np_valid:
  assumes "\<forall>v \<in> set vs. valid_index (length xs) v"
  shows "take_np xs vs = Inr (map (at xs) vs)"
  using assms by (simp add: take_np_def list_all_iff)

lemma fold_put_norm:
  assumes "\<forall>p \<in> set ps. valid_index n (fst p)"
  shows "fold (\<lambda>(i, w) a. a[pos n i := w]) (map (\<lambda>(i, w). (norm n i, w)) ps) xs
       = fold (\<lambda>(i, w) a. a[pos n i := w]) ps xs"
  using assms
proof (induction ps arbitrary: xs)
  case Nil
  then show ?case by simp
next
  case (Cons p ps)
  obtain i w where p: "p = (i, w)" by (cases p)
  with Cons.prems have "valid_index n i" by simp
  then have "pos n (norm n i) = pos n i" by (rule pos_norm)
  moreover have "\<forall>p \<in> set ps. valid_index n (fst p)" using Cons.prems by simp
  ultimately show ?case using p Cons.IH by simp
qed

lemma put_np_norm:
  assumes v: "\<forall>v \<in> set vs. valid_index (length xs) v"
  shows "put_np xs (map (norm (length xs)) vs) ws = put_np xs vs ws"
proof -
  let ?n = "length xs"
  have a: "list_all (valid_index ?n) (map (norm ?n) vs)"
    using v by (simp add: list_all_iff norm_vertex vertex_valid_index)
  have b: "list_all (valid_index ?n) vs" using v by (simp add: list_all_iff)
  have z: "zip (map (norm ?n) vs) us = map (\<lambda>(i, w). (norm ?n i, w)) (zip vs us)" for us
    by (simp add: zip_map1)
  have f: "fold (\<lambda>(i, w) a. a[pos ?n i := w]) (zip (map (norm ?n) vs) us) xs
         = fold (\<lambda>(i, w) a. a[pos ?n i := w]) (zip vs us) xs" for us
    unfolding z
  proof (rule fold_put_norm)
    show "\<forall>p \<in> set (zip vs us). valid_index ?n (fst p)"
      using v by (auto dest: set_zip_leftD)
  qed
  show ?thesis
    by (cases "broadcast (length vs) ws") (simp_all add: put_np_def a b f)
qed

lemma compressed_entry_vertex:
  assumes c: "compressed xs0 xs" and v: "valid_index (length xs0) v"
  shows "vertex (length xs0) (at xs v)"
proof -
  have l: "length xs = length xs0" by (rule compressed_length[OF c])
  have "at xs v = at xs (norm (length xs0) v)" using at_norm[of xs v] v l by simp
  then show ?thesis using compressed_at_vertex[OF c norm_vertex[OF v]] by simp
qed

lemma root_valid_index:
  assumes vf: "valid_forest xs0" and c: "compressed xs0 xs"
    and vs: "\<forall>v \<in> set vs. valid_index (length xs0) v"
  shows "root xs vs = Some (Inr (map (rootof xs0) (map (at xs) vs))) \<or>
         (vs = map (at xs) vs \<and> root xs vs = Some (Inr vs))"
proof -
  have l: "length xs = length xs0" by (rule compressed_length[OF c])
  let ?p = "map (at xs) vs"
  have tk: "take_np xs vs = Inr ?p" by (rule take_np_valid) (simp add: l vs)
  have pv: "\<forall>v \<in> set ?p. vertex (length xs0) v"
    using vs compressed_entry_vertex[OF c] by simp
  show ?thesis
  proof (cases "vs = ?p")
    case True
    then have "root xs vs = Some (Inr vs)" using tk by (subst root.simps) simp
    with True show ?thesis by simp
  next
    case False
    then have "root xs vs = root xs ?p" using tk by (subst root.simps) simp
    with root_vertex[OF vf c pv] show ?thesis by simp
  qed
qed

lemma root_valid_index_returns:
  assumes vf: "valid_forest xs0" and c: "compressed xs0 xs"
    and vs: "\<forall>v \<in> set vs. valid_index (length xs0) v"
  shows "\<exists>r. root xs vs = Some (Inr r)"
  using root_valid_index[OF assms] by blast

lemma path_halving_valid_index:
  assumes vf: "valid_forest xs0" and c: "compressed xs0 xs"
    and vs: "\<forall>v \<in> set vs. valid_index (length xs0) v"
  shows "\<exists>r ys. path_halving_loop xs vs = Some (Inr r, ys) \<and> compressed xs0 ys"
proof -
  let ?n = "length xs0"
  have l: "length xs = ?n" by (rule compressed_length[OF c])
  let ?p = "map (at xs) vs"
  let ?us = "map (norm ?n) vs"
  have tk: "take_np xs vs = Inr ?p" by (rule take_np_valid) (simp add: l vs)
  have pv: "\<forall>v \<in> set ?p. vertex ?n v" using vs compressed_entry_vertex[OF c] by simp
  show ?thesis
  proof (cases "vs = ?p")
    case True
    then have "path_halving_loop xs vs = Some (Inr vs, xs)"
      using tk by (subst path_halving_loop.simps) simp
    with c show ?thesis by blast
  next
    case False
    have tk2: "take_np xs ?p = Inr (map (at xs) ?p)"
      by (rule take_np_vertex) (simp add: l pv)
    have uv: "\<forall>v \<in> set ?us. vertex ?n v" using vs norm_vertex by simp
    have same: "map (at xs) ?us = ?p" using vs at_norm[of xs] l by simp
    from compressed_put_grandparents[OF vf c uv] obtain ys where
      ys: "put_np xs ?us (map (at xs) (map (at xs) ?us)) = Inr ys" "compressed xs0 ys" by blast
    have "put_np xs ?us (map (at xs) ?p) = Inr ys" using ys(1) unfolding same .
    moreover have "put_np xs ?us (map (at xs) ?p) = put_np xs vs (map (at xs) ?p)"
      using put_np_norm[of vs xs "map (at xs) ?p"] vs l by simp
    ultimately have put: "put_np xs vs (map (at xs) ?p) = Inr ys" by simp
    have ly: "length ys = ?n" by (rule compressed_length[OF ys(2)])
    let ?q = "map (at ys) vs"
    have tk3: "take_np ys vs = Inr ?q" by (rule take_np_valid) (simp add: ly vs)
    have qv: "\<forall>v \<in> set ?q. vertex ?n v" using vs compressed_entry_vertex[OF ys(2)] by simp
    from path_halving_vertex[OF vf ys(2) qv] obtain zs where
      zs: "path_halving_loop ys ?q = Some (Inr (map (rootof xs0) ?q), zs)" "compressed xs0 zs"
      by blast
    have "path_halving_loop xs vs = Some (Inr (map (rootof xs0) ?q), zs)"
      using False tk tk2 put tk3 zs(1) by (subst path_halving_loop.simps) simp
    with zs(2) show ?thesis by blast
  qed
qed

lemma full_pc_valid_index:
  assumes vf: "valid_forest xs0" and c: "compressed xs0 xs"
    and vs: "\<forall>v \<in> set vs. valid_index (length xs0) v"
  shows "\<exists>r ys. root_path_compression xs vs ''full_pc'' = Some (Inr r, ys) \<and> compressed xs0 ys"
proof (cases "\<forall>v \<in> set vs. vertex (length xs0) v")
  case True
  have "pc_mode ''full_pc''" by (simp add: pc_mode_def)
  from root_path_compression_vertex[OF vf c True this] show ?thesis by blast
next
  case False
  let ?n = "length xs0"
  have l: "length xs = ?n" by (rule compressed_length[OF c])
  let ?p = "map (at xs) vs"
  let ?us = "map (norm ?n) vs"
  let ?vj = "map (rootof xs0) ?p"
  have pv: "\<forall>v \<in> set ?p. vertex ?n v" using vs compressed_entry_vertex[OF c] by simp
  have vjv: "\<forall>v \<in> set ?vj. vertex ?n v" using pv rootof_vertex[OF vf] by simp
  have ne1: "vs \<noteq> ?p"
  proof
    assume "vs = ?p"
    then have "set vs = set ?p" by simp
    with pv have "\<forall>v \<in> set vs. vertex ?n v" by blast
    with False show False by simp
  qed
  have ne2: "vs \<noteq> ?vj"
  proof
    assume "vs = ?vj"
    then have "set vs = set ?vj" by simp
    with vjv have "\<forall>v \<in> set vs. vertex ?n v" by blast
    with False show False by simp
  qed
  have rt: "root xs vs = Some (Inr ?vj)"
    using root_valid_index[OF vf c vs] ne1 by blast
  have tk: "take_np xs vs = Inr ?p" by (rule take_np_valid) (simp add: l vs)
  have uv: "\<forall>v \<in> set ?us. vertex ?n v" using vs norm_vertex by simp
  have same: "map (at xs) ?us = ?p" using vs at_norm[of xs] l by simp
  have "map (rootof xs0) (map (at xs) ?us) = map (rootof xs0) ?us"
    using uv compressed_at_rootof[OF c] by simp
  then have vj: "map (rootof xs0) ?us = ?vj" unfolding same by simp
  from compressed_put_roots[OF vf c uv] obtain ys where
    ys: "put_np xs ?us (map (rootof xs0) ?us) = Inr ys" "compressed xs0 ys" by blast
  have "put_np xs ?us ?vj = Inr ys" using ys(1) unfolding vj .
  moreover have "put_np xs ?us ?vj = put_np xs vs ?vj"
    using put_np_norm[of vs xs ?vj] vs l by simp
  ultimately have put: "put_np xs vs ?vj = Inr ys" by simp
  from full_pc_loop_vertex[OF vf ys(2) pv] obtain zs where
    zs: "full_pc_loop ys ?p ?vj = Some (Inr (), zs)" "compressed xs0 zs" by blast
  have loop: "full_pc_loop xs vs ?vj = Some (Inr (), zs)"
    using ne2 tk put zs(1) by (subst full_pc_loop.simps) simp
  have "root_path_compression xs vs ''full_pc'' = Some (Inr ?vj, zs)"
    using rt loop by (simp add: root_path_compression_def)
  with zs(2) show ?thesis by blast
qed

lemma lookup_valid_index:
  assumes vf: "valid_forest xs0" and c: "compressed xs0 xs"
    and vs: "\<forall>v \<in> set vs. valid_index (length xs0) v" and m: "pc_mode t \<or> \<not> pc"
  shows "\<exists>r ys. lookup xs vs pc t = Some (Inr r, ys) \<and> compressed xs0 ys"
proof (cases pc)
  case False
  from root_valid_index_returns[OF vf c vs] obtain r where "root xs vs = Some (Inr r)" by blast
  with False c show ?thesis by (auto simp: lookup_def)
next
  case True
  with m have pm: "pc_mode t" by simp
  show ?thesis
  proof (cases "t = ''path_halving''")
    case ph: True
    from path_halving_valid_index[OF vf c vs] ph True show ?thesis
      by (simp add: lookup_def root_path_compression_def)
  next
    case False
    with pm have "t = ''full_pc''" by (simp add: pc_mode_def)
    with full_pc_valid_index[OF vf c vs] True show ?thesis by (simp add: lookup_def)
  qed
qed

lemma lookup_then_bad:
  assumes vf: "valid_forest xs" and m: "pc_mode t \<or> \<not> pc"
    and b: "b \<in> set ws" "\<not> valid_index (length xs) b"
  shows "(\<exists>ys. lookup xs vs pc t = Some (Inl IndexError, ys) \<and> length ys = length xs) \<or>
         (\<exists>r ys. lookup xs vs pc t = Some (Inr r, ys) \<and> length ys = length xs \<and>
            lookup ys ws pc t = Some (Inl IndexError, ys))"
proof (cases "\<forall>v \<in> set vs. valid_index (length xs) v")
  case True
  from lookup_valid_index[OF vf compressed_refl[OF vf] True m] obtain r ys where
    r: "lookup xs vs pc t = Some (Inr r, ys)" "compressed xs ys" by blast
  have ly: "length ys = length xs" by (rule compressed_length[OF r(2)])
  have nb: "\<not> valid_index (length ys) b" using b(2) ly by simp
  from r(1) ly lookup_bad[OF b(1) nb m] show ?thesis by blast
next
  case False
  then obtain v where "v \<in> set vs" "\<not> valid_index (length xs) v" by blast
  from lookup_bad[OF this m] show ?thesis by blast
qed

lemma build_quick_union_bad_main_any:
  assumes vf: "valid_forest xs" and m: "pc_mode t \<or> \<not> pc"
    and b: "b \<in> set main" "\<not> valid_index (length xs) b"
  shows "\<exists>ys. build_quick_union xs minor main pc t = Some (Inl IndexError, ys) \<and>
           length ys = length xs"
  using lookup_then_bad[OF vf m b, of minor]
  by (auto simp: build_quick_union_def)

lemma weighted_bad_main_any:
  assumes vf: "valid_forest (id_updated s)" and m: "pc_mode t \<or> \<not> pc"
    and b: "\<not> valid_index (length (id_updated s)) b"
  shows "\<exists>s'. build_weighted_quick_union s (PyInt a) (PyInt b) pc t = Some (Inl IndexError, s') \<and>
           length (id_updated s') = length (id_updated s)"
proof -
  have "b \<in> set [b]" by simp
  from lookup_then_bad[OF vf m this b, of "[a]"] show ?thesis
    by (auto simp: build_weighted_quick_union_def weighted_union_ints_def)
qed

section \<open>The docstrings' graph\<close>

text \<open>
  The parents array of every docstring, \<open>[0, 0, 0, 3, 3, 3, 9, 7, 9, 4, 8]\<close>: three
  trees with roots 0, 3 and 7.
\<close>

lemma valid_forestI:
  assumes "list_all (vertex (length xs)) xs"
    and "map (rootof xs) (vertices xs) = rs"
    and "list_all (\<lambda>r. at xs r = r) rs"
  shows "valid_forest xs"
proof -
  have "list_all (\<lambda>r. at xs r = r) (map (rootof xs) (vertices xs))"
    using assms(2,3) by simp
  then have "list_all (\<lambda>v. at xs (rootof xs v) = rootof xs v) (vertices xs)"
    by (simp add: list_all_iff)
  with assms(1) show ?thesis by (simp add: valid_forest_def)
qed

lemma docstring_graph_valid: "valid_forest [0, 0, 0, 3, 3, 3, 9, 7, 9, 4, 8]"
proof (rule valid_forestI)
  show "list_all (vertex (length [0, 0, 0, 3, 3, 3, 9, 7, 9, 4, 8 :: int]))
          [0, 0, 0, 3, 3, 3, 9, 7, 9, 4, 8]"
    by code_simp
  show "map (rootof [0, 0, 0, 3, 3, 3, 9, 7, 9, 4, 8]) (vertices [0, 0, 0, 3, 3, 3, 9, 7, 9, 4, 8])
          = [0, 0, 0, 3, 3, 3, 3, 7, 3, 3, 3]"
    by code_simp
  show "list_all (\<lambda>r. at [0, 0, 0, 3, 3, 3, 9, 7, 9, 4, 8] r = r) [0, 0, 0, 3, 3, 3, 3, 7, 3, 3, 3]"
    by code_simp
qed

lemma docstring_graph_roots:
  "map (rootof [0, 0, 0, 3, 3, 3, 9, 7, 9, 4, 8]) [2, 10, 7] = [0, 3, 7]"
  by code_simp

text \<open>A chain of three vertices: 2 under 1 under the root 0.\<close>

lemma chain_valid: "valid_forest [0, 0, 1]"
  by code_simp

text \<open>Small forests for the examples below.\<close>

lemma two_roots_valid: "valid_forest [0, 1]"
  by code_simp

lemma swapped_invalid: "\<not> valid_forest [1, 0]"
  by code_simp

lemma fork_valid: "valid_forest [0, 1, 1]"
  by code_simp

section \<open>The claims\<close>

text \<open>
  Claim C1 (Scenario 3). The docstring of \<open>build_weighted_quick_union\<close> promises
  that on a fresh engine over the docstrings' graph the call with ids 2 and 7 leaves the
  parents array \<open>[0, 0, 0, 3, 3, 3, 3, 0, 3, 3, 3]\<close> and the sizes 4 and 7. The code
  does not get there: the roots 0 and 7 differ, \<open>self.size\<close> and \<open>self.roots\<close> do
  not exist yet, and the handler's call of \<open>find_root\<close> passes the keyword
  \<open>pc_type\<close>, which \<open>find_root\<close> does not have. The call raises TypeError; the
  parents array is as it was and no size table exists.
\<close>

theorem weighted_union_scenario_3_raises:
  "build_weighted_quick_union (quick_union_algs [0, 0, 0, 3, 3, 3, 9, 7, 9, 4, 8])
     (PyInt 2) (PyInt 7) True ''path_halving''
   = Some (Inl TypeError, quick_union_algs [0, 0, 0, 3, 3, 3, 9, 7, 9, 4, 8])"
  by code_simp

text \<open>
  Claim C3, as stated: the public \<open>find_root\<close> with \<open>path_compression=False\<close>
  returns the roots and leaves the parents array unchanged. On the docstrings' graph the
  call for the ids 2, 10 and 7 returns nothing and rewrites entry 10 from 8 to 3.
\<close>

theorem find_root_plain_counterexample:
  "valid_forest [0, 0, 0, 3, 3, 3, 9, 7, 9, 4, 8] \<and>
   list_all (vertex 11) [2, 10, 7] \<and>
   find_root [0, 0, 0, 3, 3, 3, 9, 7, 9, 4, 8] [2, 10, 7] False ''path_halving''
     = Some (Inr (), [0, 0, 0, 3, 3, 3, 9, 7, 9, 4, 3])"
proof -
  have "list_all (vertex 11) [2, 10, 7]" by (simp add: vertex_def)
  moreover have "find_root [0, 0, 0, 3, 3, 3, 9, 7, 9, 4, 8] [2, 10, 7] False ''path_halving''
     = Some (Inr (), [0, 0, 0, 3, 3, 3, 9, 7, 9, 4, 3])"
    by code_simp
  ultimately show ?thesis using docstring_graph_valid by simp
qed

text \<open>
  Claim C3, amended: on a valid forest and vertices \<open>vs\<close>, the inner lookup
  \<open>_root\<close> returns the roots (and, being a function of the array, writes nothing);
  the public \<open>find_root\<close> with \<open>path_compression=False\<close> returns nothing and
  leaves an array of the same length in which each tested id holds its root and every
  other entry is as before.
\<close>

theorem find_root_plain_writes_roots:
  assumes "valid_forest xs" and "\<forall>v \<in> set vs. vertex (length xs) v"
  shows "root xs vs = Some (Inr (map (rootof xs) vs)) \<and>
     (\<exists>ys. find_root xs vs False t = Some (Inr (), ys) \<and> length ys = length xs \<and>
        (\<forall>u. vertex (length xs) u \<longrightarrow>
           at ys u = (if u \<in> set vs then rootof xs u else at xs u)))"
proof -
  note c = compressed_refl[OF assms(1)]
  from find_root_vertex[OF assms(1) c assms(2), where pc = False and t = t] obtain xs' ys where
    r: "lookup xs vs False t = Some (Inr (map (rootof xs) vs), xs')"
      "find_root xs vs False t = Some (Inr (), ys)" "compressed xs ys"
      "\<forall>u. vertex (length xs) u \<longrightarrow> at ys u = (if u \<in> set vs then rootof xs u else at xs' u)"
    by auto
  from r(1) have "xs' = xs" using lookup_plain[OF assms(1) c assms(2), of t] by simp
  with r compressed_length[OF r(3)] root_vertex[OF assms(1) c assms(2)] show ?thesis by auto
qed

theorem find_root_plain_writes_roots_witness:
  "valid_forest [0, 0, 0, 3, 3, 3, 9, 7, 9, 4, 8] \<and>
   list_all (vertex 11) [2, 10, 7] \<and>
   root [0, 0, 0, 3, 3, 3, 9, 7, 9, 4, 8] [2, 10, 7] = Some (Inr [0, 3, 7]) \<and>
   (\<exists>ys. find_root [0, 0, 0, 3, 3, 3, 9, 7, 9, 4, 8] [2, 10, 7] False ''full_pc''
            = Some (Inr (), ys) \<and> length ys = 11 \<and> at ys 10 = 3 \<and> at ys 9 = 4)"
proof -
  have vs: "\<forall>v \<in> set [2, 10, 7]. vertex (length [0, 0, 0, 3, 3, 3, 9, 7, 9, 4, 8 :: int]) v"
    by (simp add: vertex_def)
  have l: "list_all (vertex 11) [2, 10, 7]" by (simp add: vertex_def)
  have r10: "rootof [0, 0, 0, 3, 3, 3, 9, 7, 9, 4, 8] 10 = 3" by code_simp
  have a9: "at [0, 0, 0, 3, 3, 3, 9, 7, 9, 4, 8] 9 = 4" by code_simp
  have len: "length [0, 0, 0, 3, 3, 3, 9, 7, 9, 4, 8 :: int] = 11" by simp
  note r = find_root_plain_writes_roots[OF docstring_graph_valid vs, where t = "''full_pc''"]
  from r obtain ys where ys:
    "root [0, 0, 0, 3, 3, 3, 9, 7, 9, 4, 8] [2, 10, 7] = Some (Inr [0, 3, 7])"
    "find_root [0, 0, 0, 3, 3, 3, 9, 7, 9, 4, 8] [2, 10, 7] False ''full_pc'' = Some (Inr (), ys)"
    "length ys = 11"
    "\<forall>u. vertex 11 u \<longrightarrow> at ys u =
       (if u \<in> set [2, 10, 7] then rootof [0, 0, 0, 3, 3, 3, 9, 7, 9, 4, 8] u
        else at [0, 0, 0, 3, 3, 3, 9, 7, 9, 4, 8] u)"
    unfolding docstring_graph_roots len by blast
  from ys(4) have "at ys 10 = 3" "at ys 9 = 4" using r10 a9 by (simp_all add: vertex_def)
  with ys l docstring_graph_valid show ?thesis by blast
qed

text \<open>
  Claim C5: on a valid forest and vertices \<open>vs\<close>, \<open>_root\<close> and
  \<open>_root_path_compression\<close> with either compression type return the same array,
  the root of each id; only the parents arrays they leave may differ.
\<close>

theorem root_identity_across_modes:
  assumes "valid_forest xs" and "\<forall>v \<in> set vs. vertex (length xs) v"
  shows "\<exists>xs1 xs2.
     root xs vs = Some (Inr (map (rootof xs) vs)) \<and>
     root_path_compression xs vs ''path_halving'' = Some (Inr (map (rootof xs) vs), xs1) \<and>
     root_path_compression xs vs ''full_pc'' = Some (Inr (map (rootof xs) vs), xs2)"
proof -
  note c = compressed_refl[OF assms(1)]
  from path_halving_vertex[OF assms(1) c assms(2)] obtain xs1 where
    "path_halving_loop xs vs = Some (Inr (map (rootof xs) vs), xs1)" by blast
  then have "root_path_compression xs vs ''path_halving'' = Some (Inr (map (rootof xs) vs), xs1)"
    by (simp add: root_path_compression_def)
  moreover from full_pc_vertex[OF assms(1) c assms(2)] obtain xs2 where
    "root_path_compression xs vs ''full_pc'' = Some (Inr (map (rootof xs) vs), xs2)" by blast
  ultimately show ?thesis using root_vertex[OF assms(1) c assms(2)] by blast
qed

theorem root_identity_across_modes_witness:
  "valid_forest [0, 0, 0, 3, 3, 3, 9, 7, 9, 4, 8] \<and>
   list_all (vertex 11) [2, 10, 7] \<and>
   (\<exists>xs1 xs2.
     root [0, 0, 0, 3, 3, 3, 9, 7, 9, 4, 8] [2, 10, 7] = Some (Inr [0, 3, 7]) \<and>
     root_path_compression [0, 0, 0, 3, 3, 3, 9, 7, 9, 4, 8] [2, 10, 7] ''path_halving''
       = Some (Inr [0, 3, 7], xs1) \<and>
     root_path_compression [0, 0, 0, 3, 3, 3, 9, 7, 9, 4, 8] [2, 10, 7] ''full_pc''
       = Some (Inr [0, 3, 7], xs2))"
proof -
  have vs: "\<forall>v \<in> set [2, 10, 7]. vertex (length [0, 0, 0, 3, 3, 3, 9, 7, 9, 4, 8 :: int]) v"
    by (simp add: vertex_def)
  have l: "list_all (vertex 11) [2, 10, 7]" by (simp add: vertex_def)
  note r = root_identity_across_modes[OF docstring_graph_valid vs]
  from r l docstring_graph_valid show ?thesis
    unfolding docstring_graph_roots by blast
qed

text \<open>
  Claim C6: on a valid forest and vertices \<open>vs\<close>, the full-compression lookup run
  twice on the same ids returns the same roots both times, and the second run leaves the
  parents array exactly as the first run left it.
\<close>

theorem full_compression_idempotent:
  assumes "valid_forest xs" and "\<forall>v \<in> set vs. vertex (length xs) v"
  shows "\<exists>xs1.
     root_path_compression xs vs ''full_pc'' = Some (Inr (map (rootof xs) vs), xs1) \<and>
     root_path_compression xs1 vs ''full_pc'' = Some (Inr (map (rootof xs) vs), xs1)"
proof -
  let ?r = "map (rootof xs) vs"
  from full_pc_vertex[OF assms(1) compressed_refl[OF assms(1)] assms(2)] obtain xs1 where
    xs1: "root_path_compression xs vs ''full_pc'' = Some (Inr ?r, xs1)" "compressed xs xs1"
      "\<forall>v \<in> set vs. at xs1 v = rootof xs v" by blast
  have len: "length xs1 = length xs" by (rule compressed_length[OF xs1(2)])
  have rt: "root xs1 vs = Some (Inr ?r)" by (rule root_vertex[OF assms(1) xs1(2) assms(2)])
  have stop: "full_pc_loop xs1 ?r ?r = Some (Inr (), xs1)"
    by (subst full_pc_loop.simps) simp
  have loop: "full_pc_loop xs1 vs ?r = Some (Inr (), xs1)"
  proof (cases "vs = ?r")
    case True
    then show ?thesis using stop by simp
  next
    case False
    have "map (at xs1) vs = ?r" using xs1(3) by simp
    then have tk: "take_np xs1 vs = Inr ?r"
      using take_np_vertex[of vs xs1] assms(2) len by simp
    from compressed_put_roots[OF assms(1) xs1(2) assms(2)] obtain ys where
      ys: "put_np xs1 vs ?r = Inr ys" "compressed xs ys"
        "\<forall>u. vertex (length xs) u \<longrightarrow> at ys u = (if u \<in> set vs then rootof xs u else at xs1 u)"
      by blast
    have "ys = xs1"
    proof (rule at_eqI)
      show "length ys = length xs1" using compressed_length[OF ys(2)] len by simp
    next
      fix u assume "vertex (length xs1) u"
      then show "at ys u = at xs1 u" using ys(3) xs1(3) len by simp
    qed
    with False tk ys(1) stop show ?thesis by (subst full_pc_loop.simps) simp
  qed
  have "root_path_compression xs1 vs ''full_pc'' = Some (Inr ?r, xs1)"
    using rt loop by (simp add: root_path_compression_def)
  with xs1(1) show ?thesis by blast
qed

theorem full_compression_idempotent_witness:
  "valid_forest [0, 0, 0, 3, 3, 3, 9, 7, 9, 4, 8] \<and>
   list_all (vertex 11) [2, 10, 7] \<and>
   (\<exists>xs1.
     root_path_compression [0, 0, 0, 3, 3, 3, 9, 7, 9, 4, 8] [2, 10, 7] ''full_pc''
       = Some (Inr [0, 3, 7], xs1) \<and>
     root_path_compression xs1 [2, 10, 7] ''full_pc'' = Some (Inr [0, 3, 7], xs1))"
proof -
  have vs: "\<forall>v \<in> set [2, 10, 7]. vertex (length [0, 0, 0, 3, 3, 3, 9, 7, 9, 4, 8 :: int]) v"
    by (simp add: vertex_def)
  have l: "list_all (vertex 11) [2, 10, 7]" by (simp add: vertex_def)
  note r = full_compression_idempotent[OF docstring_graph_valid vs]
  from r l docstring_graph_valid show ?thesis
    unfolding docstring_graph_roots by blast
qed

text \<open>
  Claim C7, as stated: when every pair of the batch already shares a root,
  \<open>build_quick_union\<close> leaves every entry unchanged, with any compression flag. With
  the default flag the two lookups compress before the roots are compared: on the chain
  the call for the pair (2, 0) rewrites entry 2 from 1 to 0.
\<close>

theorem union_connected_batch_counterexample:
  "valid_forest [0, 0, 1] \<and> list_all (vertex 3) [2] \<and> list_all (vertex 3) [0] \<and>
   map (rootof [0, 0, 1]) [2] = map (rootof [0, 0, 1]) [0] \<and>
   build_quick_union [0, 0, 1] [2] [0] True ''path_halving'' = Some (Inr (), [0, 0, 0])"
proof -
  have "list_all (vertex 3) [2]" "list_all (vertex 3) [0]" by (simp_all add: vertex_def)
  moreover have "map (rootof [0, 0, 1]) [2] = map (rootof [0, 0, 1]) [0]" by code_simp
  moreover have "build_quick_union [0, 0, 1] [2] [0] True ''path_halving'' = Some (Inr (), [0, 0, 0])"
    by code_simp
  ultimately show ?thesis using chain_valid by simp
qed

text \<open>
  Claim C7, amended: on a valid forest, for batches of vertices whose roots agree pair by
  pair, \<open>build_quick_union\<close> with \<open>path_compression=False\<close> leaves the parents
  array as it is; with \<open>path_compression=True\<close> it re-parents no root: it leaves a
  valid forest of the same length in which every vertex has the root it had, the only
  writes being those of the two compressing lookups.
\<close>

theorem union_connected_batch:
  assumes vf: "valid_forest xs"
    and mi: "\<forall>v \<in> set minor. vertex (length xs) v"
    and ma: "\<forall>v \<in> set main. vertex (length xs) v"
    and same: "map (rootof xs) minor = map (rootof xs) main"
  shows "build_quick_union xs minor main False t = Some (Inr (), xs) \<and>
     (pc_mode t \<longrightarrow>
        (\<exists>xs'. build_quick_union xs minor main True t = Some (Inr (), xs') \<and>
           valid_forest xs' \<and> length xs' = length xs \<and>
           (\<forall>v. vertex (length xs) v \<longrightarrow> rootof xs' v = rootof xs v)))"
proof
  note c = compressed_refl[OF vf]
  show "build_quick_union xs minor main False t = Some (Inr (), xs)"
    using lookup_plain[OF vf c mi, of t] lookup_plain[OF vf c ma, of t] same
    by (simp add: build_quick_union_def all_eq_same)
  show "pc_mode t \<longrightarrow>
        (\<exists>xs'. build_quick_union xs minor main True t = Some (Inr (), xs') \<and>
           valid_forest xs' \<and> length xs' = length xs \<and>
           (\<forall>v. vertex (length xs) v \<longrightarrow> rootof xs' v = rootof xs v))"
  proof
    assume m: "pc_mode t"
    from lookup_vertex[OF vf c mi m, of True] obtain xs1 where
      x1: "lookup xs minor True t = Some (Inr (map (rootof xs) minor), xs1)" "compressed xs xs1"
      by blast
    from lookup_vertex[OF vf x1(2) ma m, of True] obtain xs2 where
      x2: "lookup xs1 main True t = Some (Inr (map (rootof xs) main), xs2)" "compressed xs xs2"
      by blast
    have "build_quick_union xs minor main True t = Some (Inr (), xs2)"
      using x1(1) x2(1) same by (simp add: build_quick_union_def all_eq_same)
    moreover have "\<forall>v. vertex (length xs) v \<longrightarrow> rootof xs2 v = rootof xs v"
      using compressed_rootof[OF x2(2)] by blast
    ultimately show "\<exists>xs'. build_quick_union xs minor main True t = Some (Inr (), xs') \<and>
           valid_forest xs' \<and> length xs' = length xs \<and>
           (\<forall>v. vertex (length xs) v \<longrightarrow> rootof xs' v = rootof xs v)"
      using compressed_valid[OF x2(2)] compressed_length[OF x2(2)] by blast
  qed
qed

theorem union_connected_batch_witness:
  "valid_forest [0, 0, 1] \<and> list_all (vertex 3) [2] \<and> list_all (vertex 3) [0] \<and>
   map (rootof [0, 0, 1]) [2] = map (rootof [0, 0, 1]) [0] \<and> pc_mode ''path_halving'' \<and>
   build_quick_union [0, 0, 1] [2] [0] False ''path_halving'' = Some (Inr (), [0, 0, 1]) \<and>
   (\<exists>xs'. build_quick_union [0, 0, 1] [2] [0] True ''path_halving'' = Some (Inr (), xs') \<and>
      valid_forest xs' \<and> length xs' = 3 \<and> rootof xs' 2 = rootof [0, 0, 1] 2)"
proof -
  have mi: "\<forall>v \<in> set [2]. vertex (length [0, 0, 1 :: int]) v" by (simp add: vertex_def)
  have ma: "\<forall>v \<in> set [0]. vertex (length [0, 0, 1 :: int]) v" by (simp add: vertex_def)
  have same: "map (rootof [0, 0, 1]) [2] = map (rootof [0, 0, 1]) [0]" by code_simp
  have m: "pc_mode ''path_halving''" by (simp add: pc_mode_def)
  have l: "list_all (vertex 3) [2]" "list_all (vertex 3) [0]" by (simp_all add: vertex_def)
  have v2: "vertex (length [0, 0, 1 :: int]) 2" by (simp add: vertex_def)
  note r = union_connected_batch[OF chain_valid mi ma same, where t = "''path_halving''"]
  from r m v2 obtain xs' where
    "build_quick_union [0, 0, 1] [2] [0] True ''path_halving'' = Some (Inr (), xs')"
    "valid_forest xs'" "length xs' = length [0, 0, 1 :: int]" "rootof xs' 2 = rootof [0, 0, 1] 2"
    by blast
  then have "\<exists>xs'. build_quick_union [0, 0, 1] [2] [0] True ''path_halving'' = Some (Inr (), xs') \<and>
      valid_forest xs' \<and> length xs' = 3 \<and> rootof xs' 2 = rootof [0, 0, 1] 2"
    by auto
  with r l same m chain_valid show ?thesis by blast
qed

text \<open>
  Claim C10, as stated: \<open>build_weighted_quick_union\<close> accepts every scalar integral
  id, whatever type holds it. The test is \<open>type(minor) != int\<close>: a numpy integer
  scalar, such as a root returned by a lookup, is rejected.
\<close>

theorem weighted_union_type_check_counterexample:
  "scalar_integral (NpInt 2) \<and> scalar_integral (PyInt 7) \<and>
   build_weighted_quick_union (quick_union_algs [0, 0, 0, 3, 3, 3, 9, 7, 9, 4, 8])
     (NpInt 2) (PyInt 7) True ''path_halving''
   = Some (Inl InvalidArgument, quick_union_algs [0, 0, 0, 3, 3, 3, 9, 7, 9, 4, 8])"
  by code_simp

text \<open>
  Claim C10, amended: \<open>build_weighted_quick_union\<close> raises the invalid-argument
  exception exactly when \<open>minor\<close> or \<open>main\<close> is not a Python \<open>int\<close>, and then
  the engine is as it was before the call. Two Python ints never raise it, whatever else
  the call does.
\<close>

theorem weighted_union_type_check:
  "(\<exists>s'. build_weighted_quick_union s minor main pc t = Some (Inl InvalidArgument, s'))
     = (\<not> (is_py_int minor \<and> is_py_int main)) \<and>
   (\<not> (is_py_int minor \<and> is_py_int main) \<longrightarrow>
      build_weighted_quick_union s minor main pc t = Some (Inl InvalidArgument, s))"
proof -
  have rej: "build_weighted_quick_union s minor main pc t = Some (Inl InvalidArgument, s)"
    if "\<not> (is_py_int minor \<and> is_py_int main)"
    using that by (cases minor; cases main) (simp_all add: build_weighted_quick_union_def is_py_int_def)
  have acc: "build_weighted_quick_union s minor main pc t \<noteq> Some (Inl InvalidArgument, s')"
    if "is_py_int minor \<and> is_py_int main" for s'
  proof -
    from that obtain a b where "minor = PyInt a" "main = PyInt b"
      by (cases minor; cases main) (simp_all add: is_py_int_def)
    then show ?thesis
      using weighted_union_ints_error[of s a b pc t InvalidArgument s']
      by (auto simp: build_weighted_quick_union_def)
  qed
  from rej acc show ?thesis by blast
qed

theorem weighted_union_type_check_witness:
  "\<not> (is_py_int (PyList [2, 7]) \<and> is_py_int (PyInt 7)) \<and>
   build_weighted_quick_union (quick_union_algs [0, 0, 0, 3, 3, 3, 9, 7, 9, 4, 8])
     (PyList [2, 7]) (PyInt 7) True ''path_halving''
   = Some (Inl InvalidArgument, quick_union_algs [0, 0, 0, 3, 3, 3, 9, 7, 9, 4, 8]) \<and>
   is_py_int (PyInt 1) \<and> is_py_int (PyInt 2) \<and>
   (\<nexists>s'. build_weighted_quick_union (quick_union_algs [0, 0, 0, 3, 3, 3, 9, 7, 9, 4, 8])
     (PyInt 1) (PyInt 2) True ''path_halving'' = Some (Inl InvalidArgument, s'))"
proof -
  have n: "\<not> (is_py_int (PyList [2, 7]) \<and> is_py_int (PyInt 7))" by (simp add: is_py_int_def)
  have y: "is_py_int (PyInt 1)" "is_py_int (PyInt 2)" by (simp_all add: is_py_int_def)
  note a = weighted_union_type_check[of "quick_union_algs [0, 0, 0, 3, 3, 3, 9, 7, 9, 4, 8]"
      "PyList [2, 7]" "PyInt 7" True "''path_halving''"]
  note b = weighted_union_type_check[of "quick_union_algs [0, 0, 0, 3, 3, 3, 9, 7, 9, 4, 8]"
      "PyInt 1" "PyInt 2" True "''path_halving''"]
  from a n have "build_weighted_quick_union (quick_union_algs [0, 0, 0, 3, 3, 3, 9, 7, 9, 4, 8])
     (PyList [2, 7]) (PyInt 7) True ''path_halving''
   = Some (Inl InvalidArgument, quick_union_algs [0, 0, 0, 3, 3, 3, 9, 7, 9, 4, 8])" by blast
  moreover from b y have "\<nexists>s'. build_weighted_quick_union
     (quick_union_algs [0, 0, 0, 3, 3, 3, 9, 7, 9, 4, 8])
     (PyInt 1) (PyInt 2) True ''path_halving'' = Some (Inl InvalidArgument, s')" by blast
  ultimately show ?thesis using n y by blast
qed

text \<open>
  Claim C2, as stated: every operation keeps a valid forest valid. The batched union
  writes all of \<open>self.id_updated[i] = j\<close> at once, with the roots found before any
  write: on two single-vertex trees the batch that joins 0 to 1 and 1 to 0 leaves the
  cycle \<open>[1, 0]\<close>, which has no root.
\<close>

theorem forest_preserved_counterexample:
  "valid_forest [0, 1] \<and> list_all (vertex 2) [0, 1] \<and> list_all (vertex 2) [1, 0] \<and>
   build_quick_union [0, 1] [0, 1] [1, 0] True ''path_halving'' = Some (Inr (), [1, 0]) \<and>
   \<not> valid_forest [1, 0]"
proof -
  have "list_all (vertex 2) [0, 1]" "list_all (vertex 2) [1, 0]" by (simp_all add: vertex_def)
  moreover have "build_quick_union [0, 1] [0, 1] [1, 0] True ''path_halving''
      = Some (Inr (), [1, 0])" by code_simp
  ultimately show ?thesis using two_roots_valid swapped_invalid by simp
qed

text \<open>
  Claim C2, amended: on a valid forest and vertices as arguments, the compressing lookup
  of either type, the public \<open>find_root\<close> and \<open>build_weighted_quick_union\<close> on two
  Python ints return and leave a valid forest (the weighted union also when it ends in
  an exception); \<open>_root\<close> writes nothing. \<open>build_quick_union\<close> leaves a valid
  forest when no root of a main id is put under another root by the same batch.
\<close>

theorem forest_preserved:
  assumes vf: "valid_forest xs" and m: "pc_mode t"
    and vs: "\<forall>v \<in> set vs. vertex (length xs) v"
    and mi: "\<forall>v \<in> set minor. vertex (length xs) v"
    and ma: "\<forall>v \<in> set main. vertex (length xs) v"
    and s: "id_updated s = xs" and a: "vertex (length xs) a" and b: "vertex (length xs) b"
  shows "(\<exists>r ys. root_path_compression xs vs t = Some (Inr r, ys) \<and> valid_forest ys) \<and>
         (\<exists>ys. find_root xs vs pc t = Some (Inr (), ys) \<and> valid_forest ys) \<and>
         (length minor = length main \<and>
          keeps_main_roots (map (rootof xs) minor) (map (rootof xs) main) \<longrightarrow>
            (\<exists>ys. build_quick_union xs minor main pc t = Some (Inr (), ys) \<and> valid_forest ys)) \<and>
         (\<exists>res s'. build_weighted_quick_union s (PyInt a) (PyInt b) pc t = Some (res, s') \<and>
            valid_forest (id_updated s'))"
proof (intro conjI impI)
  note c = compressed_refl[OF vf]
  from root_path_compression_vertex[OF vf c vs m] obtain ys where
    "root_path_compression xs vs t = Some (Inr (map (rootof xs) vs), ys)" "compressed xs ys"
    by blast
  then show "\<exists>r ys. root_path_compression xs vs t = Some (Inr r, ys) \<and> valid_forest ys"
    using compressed_valid by blast
next
  note c = compressed_refl[OF vf]
  have m': "pc_mode t \<or> \<not> pc" using m by simp
  from find_root_vertex[OF vf c vs m'] obtain ys where
    "find_root xs vs pc t = Some (Inr (), ys)" "compressed xs ys" by blast
  then show "\<exists>ys. find_root xs vs pc t = Some (Inr (), ys) \<and> valid_forest ys"
    using compressed_valid by blast
next
  assume h: "length minor = length main \<and>
          keeps_main_roots (map (rootof xs) minor) (map (rootof xs) main)"
  have m': "pc_mode t \<or> \<not> pc" using m by simp
  from h have len: "length minor = length main"
    and kb: "keeps_main_roots (map (rootof xs) minor) (map (rootof xs) main)" by simp_all
  from build_quick_union_vertex[OF vf m' mi ma len kb] obtain ys where
    "build_quick_union xs minor main pc t = Some (Inr (), ys)" "valid_forest ys" by blast
  then show "\<exists>ys. build_quick_union xs minor main pc t = Some (Inr (), ys) \<and> valid_forest ys"
    by blast
next
  have m': "pc_mode t \<or> \<not> pc" using m by simp
  have vfs: "valid_forest (id_updated s)" using vf s by simp
  have as: "vertex (length (id_updated s)) a" "vertex (length (id_updated s)) b"
    using a b s by simp_all
  from weighted_union_ints_vertex[OF vfs m' as] obtain res s0 where
    "weighted_union_ints s a b pc t = Some (res, s0)" "valid_forest (id_updated s0)" by blast
  then show "\<exists>res s'. build_weighted_quick_union s (PyInt a) (PyInt b) pc t = Some (res, s') \<and>
            valid_forest (id_updated s')"
    by (simp add: build_weighted_ints)
qed

theorem forest_preserved_witness:
  "valid_forest [0, 1, 1] \<and> pc_mode ''full_pc'' \<and>
   list_all (vertex 3) [2] \<and> list_all (vertex 3) [0] \<and>
   keeps_main_roots (map (rootof [0, 1, 1]) [0]) (map (rootof [0, 1, 1]) [2]) \<and>
   (\<exists>r ys. root_path_compression [0, 1, 1] [2] ''full_pc'' = Some (Inr r, ys) \<and> valid_forest ys) \<and>
   (\<exists>ys. find_root [0, 1, 1] [2] True ''full_pc'' = Some (Inr (), ys) \<and> valid_forest ys) \<and>
   (\<exists>ys. build_quick_union [0, 1, 1] [0] [2] True ''full_pc'' = Some (Inr (), ys) \<and>
      valid_forest ys) \<and>
   (\<exists>res s'. build_weighted_quick_union (quick_union_algs [0, 1, 1]) (PyInt 0) (PyInt 2) True
      ''full_pc'' = Some (res, s') \<and> valid_forest (id_updated s'))"
proof -
  have m: "pc_mode ''full_pc''" by (simp add: pc_mode_def)
  have vs: "\<forall>v \<in> set [2]. vertex (length [0, 1, 1 :: int]) v" by (simp add: vertex_def)
  have mi: "\<forall>v \<in> set [0]. vertex (length [0, 1, 1 :: int]) v" by (simp add: vertex_def)
  have l: "list_all (vertex 3) [2]" "list_all (vertex 3) [0]" by (simp_all add: vertex_def)
  have kb: "keeps_main_roots (map (rootof [0, 1, 1]) [0]) (map (rootof [0, 1, 1]) [2])"
    by (simp add: keeps_main_roots_def)
  have h: "length [0 :: int] = length [2 :: int] \<and>
      keeps_main_roots (map (rootof [0, 1, 1]) [0]) (map (rootof [0, 1, 1]) [2])"
    using kb by simp
  have s: "id_updated (quick_union_algs [0, 1, 1]) = [0, 1, 1]"
    by (simp add: quick_union_algs_def)
  have a: "vertex (length [0, 1, 1 :: int]) 0" and b: "vertex (length [0, 1, 1 :: int]) 2"
    by (simp_all add: vertex_def)
  note r = forest_preserved[OF fork_valid m vs mi vs s a b, where pc = True]
  note r1 = r[THEN conjunct1]
  note r2 = r[THEN conjunct2, THEN conjunct1]
  note r3 = r[THEN conjunct2, THEN conjunct2, THEN conjunct1, THEN mp, OF h]
  note r4 = r[THEN conjunct2, THEN conjunct2, THEN conjunct2]
  show ?thesis
    by (intro conjI) (rule fork_valid m l kb r1 r2 r3 r4)+
qed

text \<open>
  Claim C4, as stated: after \<open>build_quick_union\<close> every pair of the batch has one
  root. The docstring's own example, the batch (2, 7), (0, 6) on the docstrings' graph,
  is a counterexample: both minor ids have root 0, the assignment writes entry 0 twice
  and the last value stays, so afterwards 2 has root 3 while 7 is still its own root.
\<close>

theorem union_postcondition_counterexample:
  "valid_forest [0, 0, 0, 3, 3, 3, 9, 7, 9, 4, 8] \<and>
   list_all (vertex 11) [2, 0] \<and> list_all (vertex 11) [7, 6] \<and>
   build_quick_union [0, 0, 0, 3, 3, 3, 9, 7, 9, 4, 8] [2, 0] [7, 6] True ''path_halving''
     = Some (Inr (), [3, 0, 0, 3, 3, 3, 4, 7, 9, 4, 8]) \<and>
   root [3, 0, 0, 3, 3, 3, 4, 7, 9, 4, 8] [2, 0] = Some (Inr [3, 3]) \<and>
   root [3, 0, 0, 3, 3, 3, 4, 7, 9, 4, 8] [7, 6] = Some (Inr [7, 3])"
proof -
  have "list_all (vertex 11) [2, 0]" "list_all (vertex 11) [7, 6]" by (simp_all add: vertex_def)
  moreover have "build_quick_union [0, 0, 0, 3, 3, 3, 9, 7, 9, 4, 8] [2, 0] [7, 6] True
      ''path_halving'' = Some (Inr (), [3, 0, 0, 3, 3, 3, 4, 7, 9, 4, 8])" by code_simp
  moreover have "root [3, 0, 0, 3, 3, 3, 4, 7, 9, 4, 8] [2, 0] = Some (Inr [3, 3])" by code_simp
  moreover have "root [3, 0, 0, 3, 3, 3, 4, 7, 9, 4, 8] [7, 6] = Some (Inr [7, 3])" by code_simp
  ultimately show ?thesis using docstring_graph_valid by simp
qed

text \<open>
  Claim C4, amended: on a valid forest and equal-length batches of vertices such that
  minor ids with the same root come with main ids of the same root, and no root of a
  main id is put under another root by the batch, \<open>build_quick_union\<close> returns and
  afterwards \<open>_root\<close> gives the same roots for the minor ids as for the main ids,
  position by position. Whenever \<open>build_weighted_quick_union\<close> on two vertices
  completes without an exception, the two ids have the same root afterwards.
\<close>

theorem union_postcondition:
  assumes vf: "valid_forest xs" and m: "pc_mode t \<or> \<not> pc"
    and mi: "\<forall>v \<in> set minor. vertex (length xs) v"
    and ma: "\<forall>v \<in> set main. vertex (length xs) v"
    and len: "length minor = length main"
    and kb: "keeps_main_roots (map (rootof xs) minor) (map (rootof xs) main)"
    and cp: "consistent_pairs (map (rootof xs) minor) (map (rootof xs) main)"
    and s: "id_updated s = xs" and a: "vertex (length xs) a" and b: "vertex (length xs) b"
  shows "(\<exists>ys rs. build_quick_union xs minor main pc t = Some (Inr (), ys) \<and>
            root ys minor = Some (Inr rs) \<and> root ys main = Some (Inr rs)) \<and>
         (\<forall>s'. build_weighted_quick_union s (PyInt a) (PyInt b) pc t = Some (Inr (), s') \<longrightarrow>
            (\<exists>rs. root (id_updated s') [a] = Some (Inr rs) \<and>
                  root (id_updated s') [b] = Some (Inr rs)))"
proof (rule conjI)
  from build_quick_union_roots[OF vf m mi ma len kb cp] obtain ys where
    big: "build_quick_union xs minor main pc t = Some (Inr (), ys) \<and>
           length ys = length xs \<and> valid_forest ys \<and>
           map (rootof ys) minor = map (rootof ys) main" ..
  note run = big[THEN conjunct1]
  note ly = big[THEN conjunct2, THEN conjunct1]
  note vfy = big[THEN conjunct2, THEN conjunct2, THEN conjunct1]
  note eq = big[THEN conjunct2, THEN conjunct2, THEN conjunct2]
  have miy: "\<forall>v \<in> set minor. vertex (length ys) v" using mi unfolding ly .
  have may: "\<forall>v \<in> set main. vertex (length ys) v" using ma unfolding ly .
  have r1: "root ys minor = Some (Inr (map (rootof ys) main))"
    using root_valid[OF vfy miy] unfolding eq .
  have r2: "root ys main = Some (Inr (map (rootof ys) main))"
    by (rule root_valid[OF vfy may])
  show "\<exists>ys rs. build_quick_union xs minor main pc t = Some (Inr (), ys) \<and>
            root ys minor = Some (Inr rs) \<and> root ys main = Some (Inr rs)"
    by (intro exI[of _ ys] exI[of _ "map (rootof ys) main"] conjI) (rule run r1 r2)+
next
  have vfs: "valid_forest (id_updated s)" using vf s by simp
  have as: "vertex (length (id_updated s)) a" "vertex (length (id_updated s)) b"
    using a b s by simp_all
  from weighted_union_ints_vertex[OF vfs m as] obtain res s0 where
    big: "weighted_union_ints s a b pc t = Some (res, s0) \<and>
      valid_forest (id_updated s0) \<and>
      length (id_updated s0) = length (id_updated s) \<and>
      (res = Inr () \<longrightarrow> rootof (id_updated s0) a = rootof (id_updated s0) b)" by blast
  note w1 = big[THEN conjunct1]
  note w2 = big[THEN conjunct2, THEN conjunct1]
  note w3 = big[THEN conjunct2, THEN conjunct2, THEN conjunct1]
  note w4 = big[THEN conjunct2, THEN conjunct2, THEN conjunct2]
  show "\<forall>s'. build_weighted_quick_union s (PyInt a) (PyInt b) pc t = Some (Inr (), s') \<longrightarrow>
            (\<exists>rs. root (id_updated s') [a] = Some (Inr rs) \<and>
                  root (id_updated s') [b] = Some (Inr rs))"
  proof (intro allI impI)
    fix s' assume "build_weighted_quick_union s (PyInt a) (PyInt b) pc t = Some (Inr (), s')"
    then have "weighted_union_ints s a b pc t = Some (Inr (), s')"
      by (simp only: build_weighted_ints)
    with w1 have e: "res = Inr ()" "s0 = s'" by simp_all
    let ?ys = "id_updated s'"
    have v: "valid_forest ?ys" using w2 e(2) by simp
    have l: "length ?ys = length xs" using w3 e(2) s by simp
    have r: "rootof ?ys a = rootof ?ys b" using w4 e by simp
    have va: "\<forall>v \<in> set [a]. vertex (length ?ys) v" using a l by simp
    have vb: "\<forall>v \<in> set [b]. vertex (length ?ys) v" using b l by simp
    have ra: "root ?ys [a] = Some (Inr [rootof ?ys b])"
      using root_valid[OF v va] r by simp
    have rb: "root ?ys [b] = Some (Inr [rootof ?ys b])"
      using root_valid[OF v vb] by simp
    show "\<exists>rs. root ?ys [a] = Some (Inr rs) \<and> root ?ys [b] = Some (Inr rs)"
      by (intro exI[of _ "[rootof ?ys b]"] conjI) (rule ra rb)+
  qed
qed

theorem union_postcondition_witness:
  "valid_forest [0, 1, 1] \<and> pc_mode ''path_halving'' \<and>
   list_all (vertex 3) [0] \<and> list_all (vertex 3) [2] \<and>
   keeps_main_roots (map (rootof [0, 1, 1]) [0]) (map (rootof [0, 1, 1]) [2]) \<and>
   consistent_pairs (map (rootof [0, 1, 1]) [0]) (map (rootof [0, 1, 1]) [2]) \<and>
   (\<exists>ys rs. build_quick_union [0, 1, 1] [0] [2] True ''path_halving'' = Some (Inr (), ys) \<and>
      root ys [0] = Some (Inr rs) \<and> root ys [2] = Some (Inr rs)) \<and>
   build_weighted_quick_union (quick_union_algs [0, 1, 1]) (PyInt 1) (PyInt 2) True
     ''path_halving'' = Some (Inr (), quick_union_algs [0, 1, 1]) \<and>
   (\<exists>rs. root [0, 1, 1] [1] = Some (Inr rs) \<and> root [0, 1, 1] [2] = Some (Inr rs))"
proof -
  have m: "pc_mode ''path_halving''" by (simp add: pc_mode_def)
  then have m': "pc_mode ''path_halving'' \<or> \<not> True" by simp
  have mi: "\<forall>v \<in> set [0]. vertex (length [0, 1, 1 :: int]) v" by (simp add: vertex_def)
  have ma: "\<forall>v \<in> set [2]. vertex (length [0, 1, 1 :: int]) v" by (simp add: vertex_def)
  have l: "list_all (vertex 3) [0]" "list_all (vertex 3) [2]" by (simp_all add: vertex_def)
  have len: "length [0 :: int] = length [2 :: int]" by simp
  have kb: "keeps_main_roots (map (rootof [0, 1, 1]) [0]) (map (rootof [0, 1, 1]) [2])"
    by (simp add: keeps_main_roots_def)
  have cp: "consistent_pairs (map (rootof [0, 1, 1]) [0]) (map (rootof [0, 1, 1]) [2])"
    by (simp add: consistent_pairs_def)
  have s: "id_updated (quick_union_algs [0, 1, 1]) = [0, 1, 1]"
    by (simp add: quick_union_algs_def)
  have a: "vertex (length [0, 1, 1 :: int]) 1" and b: "vertex (length [0, 1, 1 :: int]) 2"
    by (simp_all add: vertex_def)
  have run: "build_weighted_quick_union (quick_union_algs [0, 1, 1]) (PyInt 1) (PyInt 2) True
     ''path_halving'' = Some (Inr (), quick_union_algs [0, 1, 1])" by code_simp
  note r = union_postcondition[OF fork_valid m' mi ma len kb cp s a b]
  note r1 = r[THEN conjunct1]
  have r2: "\<exists>rs. root [0, 1, 1] [1] = Some (Inr rs) \<and> root [0, 1, 1] [2] = Some (Inr rs)"
    using r[THEN conjunct2, THEN spec, THEN mp, OF run] s by simp
  show ?thesis
    by (intro conjI) (rule fork_valid m l kb cp r1 run r2)+
qed

text \<open>
  Claim C8, as stated: every operation fails on an id outside \<open>[0, N)\<close>, negative
  ids included. numpy reads a negative index from the end of the array, so the id -1 on
  an array of two roots is the vertex 1: the lookup returns its root and
  \<open>find_root\<close> completes.
\<close>

theorem out_of_range_counterexample:
  "valid_forest [0, 1] \<and> \<not> vertex 2 (- 1) \<and>
   root [0, 1] [- 1] = Some (Inr [1]) \<and>
   find_root [0, 1] [- 1] True ''path_halving'' = Some (Inr (), [0, 1])"
proof -
  have "\<not> vertex 2 (- 1)" by (simp add: vertex_def)
  moreover have "root [0, 1] [- 1] = Some (Inr [1])" by code_simp
  moreover have "find_root [0, 1] [- 1] True ''path_halving'' = Some (Inr (), [0, 1])"
    by code_simp
  ultimately show ?thesis using two_roots_valid by simp
qed

text \<open>
  Claim C8, amended: on a valid forest, an id \<open>b\<close> with \<open>b \<ge> N\<close> or
  \<open>b < -N\<close> anywhere in a batch makes the operation raise IndexError, whatever the
  other ids are: \<open>_root\<close>, \<open>_root_path_compression\<close> and \<open>find_root\<close> at
  once, with the array untouched; \<open>build_quick_union\<close> at once when the id is among
  the minor ids, and after the lookup of the minor ids when it is among the main ids;
  \<open>build_weighted_quick_union\<close> on Python ints likewise. The ids from \<open>-N\<close> to
  \<open>-1\<close> are accepted.
\<close>

theorem out_of_range_raises:
  assumes vf: "valid_forest xs" and m: "pc_mode t \<or> \<not> pc"
    and b: "b \<in> set vs" "\<not> valid_index (length xs) b" and s: "id_updated s = xs"
  shows "root xs vs = Some (Inl IndexError) \<and>
     (pc_mode t \<longrightarrow> root_path_compression xs vs t = Some (Inl IndexError, xs)) \<and>
     find_root xs vs pc t = Some (Inl IndexError, xs) \<and>
     build_quick_union xs vs other pc t = Some (Inl IndexError, xs) \<and>
     (\<exists>ys. build_quick_union xs other vs pc t = Some (Inl IndexError, ys) \<and>
        length ys = length xs) \<and>
     build_weighted_quick_union s (PyInt b) (PyInt a) pc t = Some (Inl IndexError, s) \<and>
     (\<exists>s'. build_weighted_quick_union s (PyInt a) (PyInt b) pc t = Some (Inl IndexError, s') \<and>
        length (id_updated s') = length xs)"
proof (intro conjI impI)
  show "root xs vs = Some (Inl IndexError)" by (rule root_bad[OF b])
  show "root_path_compression xs vs t = Some (Inl IndexError, xs)" if "pc_mode t"
    by (rule root_path_compression_bad[OF b that])
  show "find_root xs vs pc t = Some (Inl IndexError, xs)" by (rule find_root_bad[OF b m])
  show "build_quick_union xs vs other pc t = Some (Inl IndexError, xs)"
    by (rule build_quick_union_bad_minor[OF b m])
  show "\<exists>ys. build_quick_union xs other vs pc t = Some (Inl IndexError, ys) \<and>
        length ys = length xs"
    by (rule build_quick_union_bad_main_any[OF vf m b])
  have bs: "\<not> valid_index (length (id_updated s)) b" using b(2) s by simp
  have vfs: "valid_forest (id_updated s)" using vf s by simp
  show "build_weighted_quick_union s (PyInt b) (PyInt a) pc t = Some (Inl IndexError, s)"
    by (rule weighted_bad_minor[OF bs m])
  show "\<exists>s'. build_weighted_quick_union s (PyInt a) (PyInt b) pc t = Some (Inl IndexError, s') \<and>
        length (id_updated s') = length xs"
    using weighted_bad_main_any[OF vfs m bs, of a] s by simp
qed

theorem out_of_range_raises_witness:
  "valid_forest [0, 1] \<and> pc_mode ''path_halving'' \<and> \<not> valid_index 2 5 \<and> \<not> valid_index 2 (- 3) \<and>
   root [0, 1] [0, 5] = Some (Inl IndexError) \<and>
   root_path_compression [0, 1] [0, 5] ''path_halving'' = Some (Inl IndexError, [0, 1]) \<and>
   find_root [0, 1] [0, 5] True ''path_halving'' = Some (Inl IndexError, [0, 1]) \<and>
   build_quick_union [0, 1] [0, 5] [1, - 1] True ''path_halving'' = Some (Inl IndexError, [0, 1]) \<and>
   (\<exists>ys. build_quick_union [0, 1] [1, - 1] [0, 5] True ''path_halving''
      = Some (Inl IndexError, ys) \<and> length ys = 2) \<and>
   build_weighted_quick_union (quick_union_algs [0, 1]) (PyInt (- 3)) (PyInt 0) True
     ''path_halving'' = Some (Inl IndexError, quick_union_algs [0, 1]) \<and>
   (\<exists>s'. build_weighted_quick_union (quick_union_algs [0, 1]) (PyInt 0) (PyInt (- 3)) True
      ''path_halving'' = Some (Inl IndexError, s') \<and> length (id_updated s') = 2)"
proof -
  have m: "pc_mode ''path_halving''" by (simp add: pc_mode_def)
  then have m': "pc_mode ''path_halving'' \<or> \<not> True" by simp
  have n5: "\<not> valid_index 2 5" and n3: "\<not> valid_index 2 (- 3)"
    by (simp_all add: valid_index_def)
  have len: "length [0, 1 :: int] = 2" by simp
  have b5: "5 \<in> set [0, 5 :: int]" "\<not> valid_index (length [0, 1 :: int]) 5"
    by (simp_all add: valid_index_def)
  have b3: "- 3 \<in> set [- 3 :: int]" "\<not> valid_index (length [0, 1 :: int]) (- 3)"
    by (simp_all add: valid_index_def)
  have s: "id_updated (quick_union_algs [0, 1]) = [0, 1]" by (simp add: quick_union_algs_def)
  note r = out_of_range_raises[OF two_roots_valid m' b5 s, where other = "[1, - 1]"]
  note q = out_of_range_raises[OF two_roots_valid m' b3 s, where a = 0]
  note r1 = r[THEN conjunct1]
  note r2 = r[THEN conjunct2, THEN conjunct1, THEN mp, OF m]
  note r3 = r[THEN conjunct2, THEN conjunct2, THEN conjunct1]
  note r4 = r[THEN conjunct2, THEN conjunct2, THEN conjunct2, THEN conjunct1]
  note r5 = r[THEN conjunct2, THEN conjunct2, THEN conjunct2, THEN conjunct2, THEN conjunct1,
      unfolded len]
  note q6 = q[THEN conjunct2, THEN conjunct2, THEN conjunct2, THEN conjunct2, THEN conjunct2,
      THEN conjunct1]
  note q7 = q[THEN conjunct2, THEN conjunct2, THEN conjunct2, THEN conjunct2, THEN conjunct2,
      THEN conjunct2, unfolded len]
  show ?thesis
    by (intro conjI) (rule two_roots_valid m n5 n3 r1 r2 r3 r4 r5 q6 q7)+
qed

end
